theory Spec2Isabelle
  imports Main
begin

section \<open>Node model (nodes.ts)\<close>

text \<open>
  A TAML node is a mutable JavaScript object that is compared and stored by reference:
  \<open>children\<close> arrays hold references and \<open>parent\<close> is a back-reference.  The embedding
  therefore uses an explicit store.  A reference is an index into the store, the store is
  the list of all objects allocated so far, and allocation appends one cell.  A reference
  \<open>r\<close> is allocated in \<open>h\<close> when \<open>r < length h\<close>; JavaScript has no dangling references,
  so every theorem below names the allocated references it speaks about.

  The three interfaces \<open>DocumentNode\<close>, \<open>ElementNode\<close> and \<open>TextNode\<close> form a union
  discriminated by the \<open>type\<close> field; \<open>body\<close> is that union with the fields each
  member adds to \<open>TamlNode\<close>.  \<open>TamlTag\<close> is a union of string literals which no
  constructor checks, so a tag is a string.  Source positions are integers.
\<close>

type_synonym ref = nat

datatype body =
    Document "ref list"
  | Element string "ref list"
  | Text string

record node =
  body :: body
  node_start :: int
  node_end :: int
  parent :: "ref option"

type_synonym heap = "node list"

definition isDocumentNode :: "node \<Rightarrow> bool" where
  "isDocumentNode nd = (case body nd of Document cs \<Rightarrow> True | Element t cs \<Rightarrow> False | Text s \<Rightarrow> False)"

definition isElementNode :: "node \<Rightarrow> bool" where
  "isElementNode nd = (case body nd of Document cs \<Rightarrow> False | Element t cs \<Rightarrow> True | Text s \<Rightarrow> False)"

definition isTextNode :: "node \<Rightarrow> bool" where
  "isTextNode nd = (case body nd of Document cs \<Rightarrow> False | Element t cs \<Rightarrow> False | Text s \<Rightarrow> True)"

text \<open>The string held by the \<open>type\<close> field.\<close>

definition nodeType :: "node \<Rightarrow> string" where
  "nodeType nd = (case body nd of Document cs \<Rightarrow> ''document'' | Element t cs \<Rightarrow> ''element'' | Text s \<Rightarrow> ''text'')"

text \<open>
  Field reads.  The source reads \<open>children\<close> and \<open>tagName\<close> only behind a type guard;
  the equations for the other kinds only make the accessors total.
\<close>

definition children :: "node \<Rightarrow> ref list" where
  "children nd = (case body nd of Document cs \<Rightarrow> cs | Element t cs \<Rightarrow> cs | Text s \<Rightarrow> [])"

definition tagName :: "node \<Rightarrow> string" where
  "tagName nd = (case body nd of Document cs \<Rightarrow> [] | Element t cs \<Rightarrow> t | Text s \<Rightarrow> [])"

definition content :: "node \<Rightarrow> string" where
  "content nd = (case body nd of Document cs \<Rightarrow> [] | Element t cs \<Rightarrow> [] | Text s \<Rightarrow> s)"

text \<open>Assignment to the elements of the \<open>children\<close> array of a container.\<close>

definition set_children :: "node \<Rightarrow> ref list \<Rightarrow> node" where
  "set_children nd cs =
     nd\<lparr>body := (case body nd of Document old \<Rightarrow> Document cs
                               | Element t old \<Rightarrow> Element t cs
                               | Text s \<Rightarrow> Text s)\<rparr>"

text \<open>
  The factories allocate one object.  \<open>attach\<close> is the pair of statements
  \<open>child.parent = container; container.children.push(child)\<close>, which is the body of
  the loop of \<open>createDocument\<close> and \<open>createElement\<close> over the given children, and
  the body of \<open>appendChild\<close>.
  Default arguments (no children, positions 0, and the length of the content as the end
  of a text) are written out at each call.
  A function that writes the store takes it as its last argument and returns the new
  store; a function that only reads the store takes it as an argument and returns none.
\<close>

definition set_parent :: "ref \<Rightarrow> ref option \<Rightarrow> heap \<Rightarrow> heap" where
  "set_parent node p h = h[node := (h ! node)\<lparr>parent := p\<rparr>]"

definition push_child :: "ref \<Rightarrow> ref \<Rightarrow> heap \<Rightarrow> heap" where
  "push_child container child h =
     h[container := set_children (h ! container) (children (h ! container) @ [child])]"

definition attach :: "ref \<Rightarrow> heap \<Rightarrow> ref \<Rightarrow> heap" where
  "attach container h child = push_child container child (set_parent child (Some container) h)"

definition appendChild :: "ref \<Rightarrow> ref \<Rightarrow> heap \<Rightarrow> heap" where
  "appendChild container child h = attach container h child"

definition createDocument :: "ref list \<Rightarrow> int \<Rightarrow> int \<Rightarrow> heap \<Rightarrow> ref \<times> heap" where
  "createDocument cs start_pos end_pos h =
     (let document = length h;
          h0 = h @ [\<lparr>body = Document [], node_start = start_pos, node_end = end_pos, parent = None\<rparr>]
      in (document, foldl (attach document) h0 cs))"

definition createElement :: "string \<Rightarrow> ref list \<Rightarrow> int \<Rightarrow> int \<Rightarrow> heap \<Rightarrow> ref \<times> heap" where
  "createElement tag cs start_pos end_pos h =
     (let element = length h;
          h0 = h @ [\<lparr>body = Element tag [], node_start = start_pos, node_end = end_pos, parent = None\<rparr>]
      in (element, foldl (attach element) h0 cs))"

definition createText :: "string \<Rightarrow> int \<Rightarrow> int \<Rightarrow> heap \<Rightarrow> ref \<times> heap" where
  "createText s start_pos end_pos h =
     (length h, h @ [\<lparr>body = Text s, node_start = start_pos, node_end = end_pos, parent = None\<rparr>])"

text \<open>
  \<open>Array.prototype.indexOf\<close> on an array of objects compares references and answers
  \<open>-1\<close> when there is none; \<open>splice(index, 1)\<close> removes one element.
\<close>

definition indexOf :: "'a list \<Rightarrow> 'a \<Rightarrow> int" where
  "indexOf xs x = (if x \<in> set xs then int (length (takeWhile (\<lambda>y. y \<noteq> x) xs)) else - 1)"

definition splice1 :: "nat \<Rightarrow> 'a list \<Rightarrow> 'a list" where
  "splice1 index xs = take index xs @ drop (Suc index) xs"

definition removeChild :: "ref \<Rightarrow> heap \<Rightarrow> heap" where
  "removeChild child h =
     (case parent (h ! child) of
        None \<Rightarrow> h
      | Some p \<Rightarrow>
          if isDocumentNode (h ! p) \<or> isElementNode (h ! p) then
            (let index = indexOf (children (h ! p)) child in
             if index \<noteq> - 1 then
               (let h1 = h[p := set_children (h ! p) (splice1 (nat index) (children (h ! p)))]
                in h1[child := (h1 ! child)\<lparr>parent := None\<rparr>])
             else h)
          else h)"

section \<open>Callbacks, exceptions and loops\<close>

text \<open>
  Callbacks passed to the library are arbitrary JavaScript closures: they may change
  their own state and they may throw.  A computation over a state \<open>'s\<close> either has no
  result (\<open>None\<close>: the recursion budget of a traversal ran out), or ends in a state
  with a thrown value (\<open>Inl\<close>) or a returned value (\<open>Inr\<close>).  A thrown value leaves the
  changes made before it in place, as in JavaScript.
\<close>

type_synonym ('s, 'x, 'a) prog = "'s \<Rightarrow> (('x + 'a) \<times> 's) option"

definition return_value :: "'a \<Rightarrow> ('s, 'x, 'a) prog" where
  "return_value a = (\<lambda>s. Some (Inr a, s))"

definition throw :: "'x \<Rightarrow> ('s, 'x, 'a) prog" where
  "throw e = (\<lambda>s. Some (Inl e, s))"

text \<open>Sequencing of two statements: a throw or a missing result of the first skips the second.\<close>

definition and_then :: "('s, 'x, 'a) prog \<Rightarrow> ('a \<Rightarrow> ('s, 'x, 'b) prog) \<Rightarrow> ('s, 'x, 'b) prog" where
  "and_then m f =
     (\<lambda>s. case m s of
            None \<Rightarrow> None
          | Some (Inl e, s') \<Rightarrow> Some (Inl e, s')
          | Some (Inr a, s') \<Rightarrow> f a s')"

text \<open>\<open>for (const x of xs) { f(x) }\<close>.\<close>

fun for_of :: "'a list \<Rightarrow> ('a \<Rightarrow> ('s, 'x, unit) prog) \<Rightarrow> ('s, 'x, unit) prog" where
  "for_of [] f = return_value ()"
| "for_of (x # xs) f = and_then (f x) (\<lambda>u. for_of xs f)"

text \<open>An optional call \<open>f?.(node)\<close>: a missing callback is skipped.\<close>

definition optional_call :: "('n \<Rightarrow> ('s, 'x, unit) prog) option \<Rightarrow> 'n \<Rightarrow> ('s, 'x, unit) prog" where
  "optional_call f node = (case f of None \<Rightarrow> return_value () | Some g \<Rightarrow> g node)"

text \<open>
  What a library function can throw: an \<open>Error\<close> object it creates itself with a
  message, or whatever a callback of the caller threw.
\<close>

datatype 'x thrown = Error string | Thrown 'x

text \<open>Running a callback of the caller inside a library function.\<close>

definition call_user :: "('s, 'x, 'a) prog \<Rightarrow> ('s, 'x thrown, 'a) prog" where
  "call_user m =
     (\<lambda>s. case m s of
            None \<Rightarrow> None
          | Some (Inl e, s') \<Rightarrow> Some (Inl (Thrown e), s')
          | Some (Inr a, s') \<Rightarrow> Some (Inr a, s'))"

text \<open>The thrown values of a function that calls no callback.\<close>

type_synonym error = "unit thrown"

text \<open>\<open>xs.map(f)\<close>, with \<open>f\<close> run on each element in order.\<close>

fun array_map :: "'a list \<Rightarrow> ('a \<Rightarrow> ('s, 'x, 'b) prog) \<Rightarrow> ('s, 'x, 'b list) prog" where
  "array_map [] f = return_value []"
| "array_map (x # xs) f = and_then (f x) (\<lambda>y. and_then (array_map xs f) (\<lambda>ys. return_value (y # ys)))"

section \<open>Cloning and root lookup (nodes.ts)\<close>

text \<open>
  \<open>cloneNode\<close> recurses through \<open>children\<close> and allocates, so it runs on the store
  as its state, with a recursion budget.  The children are cloned first, left to right,
  and the copy of the container is allocated after them.  The last branch is the throw
  for an unknown node type; the three guards before it cover every \<open>body\<close>, so it is
  never taken.
\<close>

definition allocate :: "(heap \<Rightarrow> ref \<times> heap) \<Rightarrow> (heap, error, ref) prog" where
  "allocate f = (\<lambda>h. case f h of (r, h') \<Rightarrow> Some (Inr r, h'))"

fun cloneNode :: "nat \<Rightarrow> ref \<Rightarrow> (heap, error, ref) prog" where
  "cloneNode 0 node = (\<lambda>h. None)"
| "cloneNode (Suc fuel) node =
     (\<lambda>h. if isTextNode (h ! node) then
             allocate (createText (content (h ! node)) (node_start (h ! node)) (node_end (h ! node))) h
           else if isElementNode (h ! node) then
             and_then (array_map (children (h ! node)) (\<lambda>child. cloneNode fuel child))
               (\<lambda>clonedChildren h'.
                  allocate (createElement (tagName (h' ! node)) clonedChildren
                              (node_start (h' ! node)) (node_end (h' ! node))) h') h
           else if isDocumentNode (h ! node) then
             and_then (array_map (children (h ! node)) (\<lambda>child. cloneNode fuel child))
               (\<lambda>clonedChildren h'.
                  allocate (createDocument clonedChildren
                              (node_start (h' ! node)) (node_end (h' ! node))) h') h
           else throw (Error (''Unknown node type: '' @ nodeType (h ! node))) h)"

text \<open>
  The loop \<open>while (current.parent) current = current.parent\<close> of \<open>getRoot\<close> ends only
  if the chain of parents ends; \<open>None\<close> is the loop that never ends.
\<close>

partial_function (option) getRoot_loop :: "heap \<Rightarrow> ref \<Rightarrow> ref option" where
  "getRoot_loop h current =
     (case parent (h ! current) of
        Some p \<Rightarrow> getRoot_loop h p
      | None \<Rightarrow> Some current)"

declare getRoot_loop.simps [code]

definition getRoot :: "heap \<Rightarrow> ref \<Rightarrow> (error + ref) option" where
  "getRoot h node =
     (case getRoot_loop h node of
        None \<Rightarrow> None
      | Some current \<Rightarrow>
          if \<not> isDocumentNode (h ! current) then Some (Inl (Error ''Root node is not a document node''))
          else Some (Inr current))"

section \<open>Visitor and transformer (visitor.ts)\<close>

text \<open>
  \<open>Transformer<T>\<close> has three optional methods; \<open>Visitor\<close> has the same three with
  result \<open>void\<close> and the two hooks \<open>enterNode\<close> and \<open>exitNode\<close>.
\<close>

record ('s, 'x, 't) transformer =
  visitDocument :: "(ref \<Rightarrow> ('s, 'x, 't) prog) option"
  visitElement :: "(ref \<Rightarrow> ('s, 'x, 't) prog) option"
  visitText :: "(ref \<Rightarrow> ('s, 'x, 't) prog) option"

record ('s, 'x) visitor = "('s, 'x, unit) transformer" +
  enterNode :: "(ref \<Rightarrow> ('s, 'x, unit) prog) option"
  exitNode :: "(ref \<Rightarrow> ('s, 'x, unit) prog) option"

definition no_transformer_method :: "node \<Rightarrow> ('s, 'x thrown, 't) prog" where
  "no_transformer_method nd = throw (Error (''No transformer method found for node type: '' @ nodeType nd))"

definition transform :: "heap \<Rightarrow> ref \<Rightarrow> ('s, 'x, 't) transformer \<Rightarrow> ('s, 'x thrown, 't) prog" where
  "transform h node transformer =
     (if isDocumentNode (h ! node) then
        (case visitDocument transformer of
           Some f \<Rightarrow> call_user (f node)
         | None \<Rightarrow> no_transformer_method (h ! node))
      else if isElementNode (h ! node) then
        (case visitElement transformer of
           Some f \<Rightarrow> call_user (f node)
         | None \<Rightarrow> no_transformer_method (h ! node))
      else if isTextNode (h ! node) then
        (case visitText transformer of
           Some f \<Rightarrow> call_user (f node)
         | None \<Rightarrow> no_transformer_method (h ! node))
      else no_transformer_method (h ! node))"

text \<open>
  \<open>visit\<close> recurses through \<open>children\<close>, which the type system does not bound, so
  its model carries a recursion budget: a call that needs more nested calls than the
  budget has no result.
\<close>

fun visit :: "nat \<Rightarrow> heap \<Rightarrow> ref \<Rightarrow> ('s, 'x) visitor \<Rightarrow> ('s, 'x, unit) prog" where
  "visit 0 h node visitor = (\<lambda>s. None)"
| "visit (Suc fuel) h node visitor =
     and_then (optional_call (enterNode visitor) node) (\<lambda>u.
     and_then
       (if isDocumentNode (h ! node) then
          and_then (optional_call (visitDocument visitor) node) (\<lambda>u.
            for_of (children (h ! node)) (\<lambda>child. visit fuel h child visitor))
        else if isElementNode (h ! node) then
          and_then (optional_call (visitElement visitor) node) (\<lambda>u.
            for_of (children (h ! node)) (\<lambda>child. visit fuel h child visitor))
        else if isTextNode (h ! node) then
          optional_call (visitText visitor) node
        else return_value ()) (\<lambda>u.
     optional_call (exitNode visitor) node))"

section \<open>Traversal (traversal.ts)\<close>

fun walk :: "nat \<Rightarrow> heap \<Rightarrow> ref \<Rightarrow> (ref \<Rightarrow> ('s, 'x, unit) prog) \<Rightarrow> ('s, 'x, unit) prog" where
  "walk 0 h node callback = (\<lambda>s. None)"
| "walk (Suc fuel) h node callback =
     and_then (callback node) (\<lambda>u.
       if isDocumentNode (h ! node) \<or> isElementNode (h ! node) then
         for_of (children (h ! node)) (\<lambda>child. walk fuel h child callback)
       else return_value ())"

text \<open>
  The closures passed to \<open>walk\<close> by the functions below capture a local variable of the
  enclosing function (\<open>results\<close>, \<open>result\<close>, \<open>textParts\<close>, \<open>counts\<close>).  Inside such a
  function the state is the pair of that variable and the state of the caller.
\<close>

definition in_caller :: "('u, 'x, 'a) prog \<Rightarrow> ('l \<times> 'u, 'x, 'a) prog" where
  "in_caller m =
     (\<lambda>(l, u). case m u of
                 None \<Rightarrow> None
               | Some (r, u') \<Rightarrow> Some (r, (l, u')))"

definition assign_local :: "('l \<Rightarrow> 'l) \<Rightarrow> ('l \<times> 'u, 'x, unit) prog" where
  "assign_local f = (\<lambda>(l, u). Some (Inr (), (f l, u)))"

text \<open>\<open>let l = init; body; return l\<close>.\<close>

definition local_variable :: "'l \<Rightarrow> ('l \<times> 'u, 'x, unit) prog \<Rightarrow> ('u, 'x, 'l) prog" where
  "local_variable init m =
     (\<lambda>u. case m (init, u) of
            None \<Rightarrow> None
          | Some (Inl e, (l, u')) \<Rightarrow> Some (Inl e, u')
          | Some (Inr a, (l, u')) \<Rightarrow> Some (Inr l, u'))"

text \<open>\<open>try { m } catch { }\<close>: every thrown value is dropped.\<close>

definition try_catch_all :: "('s, 'x, unit) prog \<Rightarrow> ('s, 'x, unit) prog" where
  "try_catch_all m =
     (\<lambda>s. case m s of
            None \<Rightarrow> None
          | Some (r, s') \<Rightarrow> Some (Inr (), s'))"

text \<open>The closures that \<open>findAll\<close> and \<open>findFirst\<close> pass to \<open>walk\<close>.\<close>

definition findAll_callback :: "(ref \<Rightarrow> ('u, 'x, bool) prog) \<Rightarrow> ref \<Rightarrow> (ref list \<times> 'u, 'x, unit) prog" where
  "findAll_callback predicate node =
     and_then (in_caller (predicate node)) (\<lambda>b.
       if b then assign_local (\<lambda>results. results @ [node]) else return_value ())"

definition findAll :: "nat \<Rightarrow> heap \<Rightarrow> ref \<Rightarrow> (ref \<Rightarrow> ('u, 'x, bool) prog) \<Rightarrow> ('u, 'x, ref list) prog" where
  "findAll fuel h root predicate =
     local_variable [] (walk fuel h root (findAll_callback predicate))"

definition findFirst_callback :: "(ref \<Rightarrow> ('u, 'x, bool) prog) \<Rightarrow> ref \<Rightarrow> (ref option \<times> 'u, 'x thrown, unit) prog" where
  "findFirst_callback predicate node =
     and_then (in_caller (call_user (predicate node))) (\<lambda>b.
       if b then and_then (assign_local (\<lambda>result. Some node)) (\<lambda>u. throw (Error ''Found''))
       else return_value ())"

definition findFirst :: "nat \<Rightarrow> heap \<Rightarrow> ref \<Rightarrow> (ref \<Rightarrow> ('u, 'x, bool) prog) \<Rightarrow> ('u, 'x thrown, ref option) prog" where
  "findFirst fuel h root predicate =
     local_variable None (try_catch_all (walk fuel h root (findFirst_callback predicate)))"

text \<open>
  The queries below call no callback of the caller: their closures only change a local
  variable, so the state of the caller is empty.
\<close>

definition getAllText :: "nat \<Rightarrow> heap \<Rightarrow> ref \<Rightarrow> (unit, error, string) prog" where
  "getAllText fuel h root =
     and_then
       (local_variable []
          (walk fuel h root (\<lambda>node.
             if isTextNode (h ! node) then assign_local (\<lambda>textParts. textParts @ [content (h ! node)])
             else return_value ())))
       (\<lambda>textParts. return_value (concat textParts))"

definition getElementsWithTag :: "nat \<Rightarrow> heap \<Rightarrow> ref \<Rightarrow> string \<Rightarrow> (unit, error, ref list) prog" where
  "getElementsWithTag fuel h root tag =
     findAll fuel h root (\<lambda>node. return_value (isElementNode (h ! node) \<and> tagName (h ! node) = tag))"

record counts =
  count_document :: nat
  count_element :: nat
  count_text :: nat

definition countNodes :: "nat \<Rightarrow> heap \<Rightarrow> ref \<Rightarrow> (unit, error, counts) prog" where
  "countNodes fuel h root =
     local_variable \<lparr>count_document = 0, count_element = 0, count_text = 0\<rparr>
       (walk fuel h root (\<lambda>node.
          if isDocumentNode (h ! node) then
            assign_local (\<lambda>c. c\<lparr>count_document := count_document c + 1\<rparr>)
          else if isElementNode (h ! node) then
            assign_local (\<lambda>c. c\<lparr>count_element := count_element c + 1\<rparr>)
          else if isTextNode (h ! node) then
            assign_local (\<lambda>c. c\<lparr>count_text := count_text c + 1\<rparr>)
          else return_value ()))"

fun traverse :: "nat \<Rightarrow> heap \<Rightarrow> ref \<Rightarrow> nat \<Rightarrow> (nat \<times> unit, error, unit) prog" where
  "traverse 0 h node depth = (\<lambda>s. None)"
| "traverse (Suc fuel) h node depth =
     and_then (assign_local (\<lambda>maxDepth. max maxDepth depth)) (\<lambda>u.
       if isDocumentNode (h ! node) \<or> isElementNode (h ! node) then
         for_of (children (h ! node)) (\<lambda>child. traverse fuel h child (depth + 1))
       else return_value ())"

definition getMaxDepth :: "nat \<Rightarrow> heap \<Rightarrow> ref \<Rightarrow> (unit, error, nat) prog" where
  "getMaxDepth fuel h root = local_variable 0 (traverse fuel h root 0)"

text \<open>
  \<open>getCommonAncestor\<close> has two loops over the chain of parents.  The first fills the
  set \<open>ancestors1\<close>, the second looks for the first member of that set.
\<close>

partial_function (option) collect_ancestors :: "heap \<Rightarrow> ref option \<Rightarrow> ref set \<Rightarrow> ref set option" where
  "collect_ancestors h current ancestors1 =
     (case current of
        Some c \<Rightarrow> collect_ancestors h (parent (h ! c)) (insert c ancestors1)
      | None \<Rightarrow> Some ancestors1)"

declare collect_ancestors.simps [code]

partial_function (option) search_ancestors :: "heap \<Rightarrow> ref set \<Rightarrow> ref option \<Rightarrow> ref option option" where
  "search_ancestors h ancestors1 current =
     (case current of
        Some c \<Rightarrow> if c \<in> ancestors1 then Some (Some c) else search_ancestors h ancestors1 (parent (h ! c))
      | None \<Rightarrow> Some None)"

declare search_ancestors.simps [code]

definition getCommonAncestor :: "heap \<Rightarrow> ref \<Rightarrow> ref \<Rightarrow> ref option option" where
  "getCommonAncestor h node1 node2 =
     (case collect_ancestors h (Some node1) {} of
        None \<Rightarrow> None
      | Some ancestors1 \<Rightarrow> search_ancestors h ancestors1 (Some node2))"

definition getSiblings :: "heap \<Rightarrow> ref \<Rightarrow> ref list" where
  "getSiblings h node =
     (case parent (h ! node) of
        None \<Rightarrow> []
      | Some p \<Rightarrow>
          if \<not> isDocumentNode (h ! p) \<and> \<not> isElementNode (h ! p) then []
          else filter (\<lambda>child. child \<noteq> node) (children (h ! p)))"

section \<open>Trees in the store\<close>

text \<open>
  \<open>tree_within n h r\<close>: every reference reachable from \<open>r\<close> through \<open>children\<close> is
  allocated and lies fewer than \<open>n\<close> levels below \<open>r\<close>.  A store in which \<open>children\<close>
  forms a tree (or any finite acyclic graph) below \<open>r\<close> satisfies it for every \<open>n\<close> above
  the height of \<open>r\<close>; a traversal given such an \<open>n\<close> as budget has a result.
\<close>

fun tree_within :: "nat \<Rightarrow> heap \<Rightarrow> ref \<Rightarrow> bool" where
  "tree_within 0 h r = False"
| "tree_within (Suc n) h r = (r < length h \<and> list_all (tree_within n h) (children (h ! r)))"

text \<open>Depth-first pre-order: a node, then the pre-order of each child in order.\<close>

fun preorder :: "nat \<Rightarrow> heap \<Rightarrow> ref \<Rightarrow> ref list" where
  "preorder 0 h r = []"
| "preorder (Suc n) h r = r # concat (map (preorder n h) (children (h ! r)))"

text \<open>
  The chain of parents of a node: \<open>ancestry h (r # rs)\<close> holds when \<open>rs\<close> lists the
  parent of \<open>r\<close>, its parent, and so on, up to a node without parent, all allocated.
\<close>

fun ancestry :: "heap \<Rightarrow> ref list \<Rightarrow> bool" where
  "ancestry h [] = False"
| "ancestry h [r] = (r < length h \<and> parent (h ! r) = None)"
| "ancestry h (r # p # rs) = (r < length h \<and> parent (h ! r) = Some p \<and> ancestry h (p # rs))"

text \<open>
  The structure of the subtree below a node, without identities and without parents:
  kind, tag or content, span, and the structures of the children in order.
\<close>

datatype shape =
    DocumentShape int int "shape list"
  | ElementShape string int int "shape list"
  | TextShape string int int

fun shape_of :: "nat \<Rightarrow> heap \<Rightarrow> ref \<Rightarrow> shape" where
  "shape_of 0 h r = TextShape [] 0 0"
| "shape_of (Suc n) h r =
     (case body (h ! r) of
        Document cs \<Rightarrow> DocumentShape (node_start (h ! r)) (node_end (h ! r)) (map (shape_of n h) cs)
      | Element t cs \<Rightarrow> ElementShape t (node_start (h ! r)) (node_end (h ! r)) (map (shape_of n h) cs)
      | Text s \<Rightarrow> TextShape s (node_start (h ! r)) (node_end (h ! r)))"

text \<open>
  Two relations between a store and a later one: every object of the first is the same
  in the second, and every object of the first has the same kind, tag or content, children
  and span in the second (its parent may differ).
\<close>

definition unchanged_below :: "heap \<Rightarrow> heap \<Rightarrow> bool" where
  "unchanged_below h h' = (length h \<le> length h' \<and> take (length h) h' = h)"

definition node_structure :: "node \<Rightarrow> body \<times> int \<times> int" where
  "node_structure nd = (body nd, node_start nd, node_end nd)"

definition structure_kept :: "heap \<Rightarrow> heap \<Rightarrow> bool" where
  "structure_kept h h' =
     (length h \<le> length h' \<and> map node_structure (take (length h) h') = map node_structure h)"

text \<open>
  \<open>copy_in n h h' c c'\<close>: the object \<open>c'\<close> of the later store \<open>h'\<close> is the root of a
  tree of objects that \<open>h\<close> does not have, with the structure that \<open>c\<close> has in \<open>h\<close>.
  \<open>clone_ok\<close> is what a call of \<open>cloneNode\<close> on \<open>x\<close> in the store \<open>h\<close> establishes for
  its result \<open>x'\<close> and final store \<open>h'\<close>.
\<close>

definition copy_in :: "nat \<Rightarrow> heap \<Rightarrow> heap \<Rightarrow> ref \<Rightarrow> ref \<Rightarrow> bool" where
  "copy_in n h h' c c' =
     (length h \<le> c' \<and> c' < length h' \<and> tree_within n h' c' \<and> shape_of n h' c' = shape_of n h c
      \<and> (\<forall>r\<in>set (preorder n h' c'). length h \<le> r))"

definition clone_ok :: "nat \<Rightarrow> heap \<Rightarrow> ref \<Rightarrow> heap \<Rightarrow> ref \<Rightarrow> bool" where
  "clone_ok n h x h' x' =
     (unchanged_below h h' \<and> length h \<le> x' \<and> x' < length h'
      \<and> tree_within n h' x' \<and> shape_of n h' x' = shape_of n h x
      \<and> (\<forall>r\<in>set (preorder n h' x'). length h \<le> r)
      \<and> parent (h' ! x') = None
      \<and> (\<forall>c\<in>set (children (h' ! x')). parent (h' ! c) = Some x'))"

section \<open>Hooks of a visitor\<close>

text \<open>
  The five callbacks of a visitor, and the sequence of invocations the specification
  gives for a node: the enter hook, the callback of the kind of the node, for a document
  or an element the whole sequence of each child in order, and the exit hook.
\<close>

datatype hook = EnterNode | VisitDocument | VisitElement | VisitText | ExitNode

definition kind_hook :: "node \<Rightarrow> hook" where
  "kind_hook nd =
     (case body nd of Document cs \<Rightarrow> VisitDocument | Element t cs \<Rightarrow> VisitElement | Text s \<Rightarrow> VisitText)"

fun hook_sequence :: "nat \<Rightarrow> heap \<Rightarrow> ref \<Rightarrow> (hook \<times> ref) list" where
  "hook_sequence 0 h r = []"
| "hook_sequence (Suc n) h r =
     [(EnterNode, r), (kind_hook (h ! r), r)]
     @ (if isDocumentNode (h ! r) \<or> isElementNode (h ! r)
        then concat (map (hook_sequence n h) (children (h ! r))) else [])
     @ [(ExitNode, r)]"

definition callback_of :: "('s, 'x) visitor \<Rightarrow> hook \<Rightarrow> (ref \<Rightarrow> ('s, 'x, unit) prog) option" where
  "callback_of v k =
     (case k of
        EnterNode \<Rightarrow> enterNode v
      | VisitDocument \<Rightarrow> visitDocument v
      | VisitElement \<Rightarrow> visitElement v
      | VisitText \<Rightarrow> visitText v
      | ExitNode \<Rightarrow> exitNode v)"

definition invoke :: "('s, 'x) visitor \<Rightarrow> hook \<times> ref \<Rightarrow> ('s, 'x, unit) prog" where
  "invoke v = (\<lambda>(k, r). optional_call (callback_of v k) r)"

text \<open>
  A visitor that has exactly the callbacks in \<open>P\<close>, each of which appends its own name
  and the node it was given to a log.
\<close>

definition record_hook :: "hook set \<Rightarrow> hook \<Rightarrow> (ref \<Rightarrow> ((hook \<times> ref) list, unit, unit) prog) option" where
  "record_hook P k = (if k \<in> P then Some (\<lambda>r log. Some (Inr (), log @ [(k, r)])) else None)"

definition recorder :: "hook set \<Rightarrow> ((hook \<times> ref) list, unit) visitor" where
  "recorder P =
     \<lparr>visitDocument = record_hook P VisitDocument, visitElement = record_hook P VisitElement,
      visitText = record_hook P VisitText, enterNode = record_hook P EnterNode,
      exitNode = record_hook P ExitNode\<rparr>"

section \<open>Predicates of a search\<close>

text \<open>
  \<open>observed P\<close> is a predicate that never throws, answers \<open>P\<close> and appends each node it
  is applied to to a log.  \<open>stateless q\<close> is a predicate without state that throws where
  \<open>q\<close> is \<open>Inl\<close>.
\<close>

definition observed :: "(ref \<Rightarrow> bool) \<Rightarrow> ref \<Rightarrow> (ref list, unit, bool) prog" where
  "observed P node = (\<lambda>log. Some (Inr (P node), log @ [node]))"

definition stateless :: "(ref \<Rightarrow> 'x + bool) \<Rightarrow> ref \<Rightarrow> ('u, 'x, bool) prog" where
  "stateless q node = (\<lambda>u. Some (q node, u))"

text \<open>
  The search along a list of nodes that stops at the first node where the predicate
  answers true, and stops with no node where the predicate throws.
\<close>

fun first_match :: "(ref \<Rightarrow> ('u, 'x, bool) prog) \<Rightarrow> ref list \<Rightarrow> ('u, 'x thrown, ref option) prog" where
  "first_match p [] = return_value None"
| "first_match p (x # xs) =
     (\<lambda>u. case p x u of
            None \<Rightarrow> None
          | Some (Inl e, u') \<Rightarrow> Some (Inr None, u')
          | Some (Inr b, u') \<Rightarrow> if b then Some (Inr (Some x), u') else first_match p xs u')"

section \<open>The tree of the end-to-end scenario\<close>

text \<open>\<open><red>Hello <bold>World</bold>!</red>\<close> in a document, built with the factories.\<close>

definition example_tree :: "ref \<times> heap" where
  "example_tree =
     (let (hello, h1) = createText ''Hello '' 0 6 [];
          (world, h2) = createText ''World'' 0 5 h1;
          (exclamation, h3) = createText ''!'' 0 1 h2;
          (bold, h4) = createElement ''bold'' [world] 0 0 h3;
          (red, h5) = createElement ''red'' [hello, bold, exclamation] 0 0 h4
      in createDocument [red] 0 0 h5)"

text \<open>The store these calls leave behind; the document is object 5 and \<open>bold\<close> is object 3.\<close>

definition example_heap :: heap where
  "example_heap =
     [\<lparr>body = Text ''Hello '', node_start = 0, node_end = 6, parent = Some 4\<rparr>,
      \<lparr>body = Text ''World'', node_start = 0, node_end = 5, parent = Some 3\<rparr>,
      \<lparr>body = Text ''!'', node_start = 0, node_end = 1, parent = Some 4\<rparr>,
      \<lparr>body = Element ''bold'' [1], node_start = 0, node_end = 0, parent = Some 4\<rparr>,
      \<lparr>body = Element ''red'' [0, 3, 2], node_start = 0, node_end = 0, parent = Some 5\<rparr>,
      \<lparr>body = Document [4], node_start = 0, node_end = 0, parent = None\<rparr>]"

text \<open>The callback of a transformer that matches the kind of a node, if it is registered.\<close>

definition matching_callback :: "('s, 'x, 't) transformer \<Rightarrow> node \<Rightarrow> (ref \<Rightarrow> ('s, 'x, 't) prog) option" where
  "matching_callback transformer nd =
     (case body nd of
        Document cs \<Rightarrow> visitDocument transformer
      | Element t cs \<Rightarrow> visitElement transformer
      | Text s \<Rightarrow> visitText transformer)"


section \<open>Sequencing and loops\<close>

lemma and_then_return [simp]: "and_then (return_value a) f = f a"
  by (simp add: and_then_def return_value_def)

lemma and_then_unit [simp]: "and_then m (\<lambda>u. return_value ()) = m"
  by (auto simp: and_then_def return_value_def fun_eq_iff split: option.splits sum.splits prod.splits)

lemma and_then_return_right [simp]: "and_then m return_value = m"
  by (auto simp: and_then_def return_value_def fun_eq_iff split: option.splits sum.splits prod.splits)

lemma and_then_assoc: "and_then (and_then m f) g = and_then m (\<lambda>a. and_then (f a) g)"
  by (auto simp: and_then_def fun_eq_iff split: option.splits sum.splits prod.splits)

lemma for_of_append: "for_of (xs @ ys) f = and_then (for_of xs f) (\<lambda>u. for_of ys f)"
  by (induction xs) (simp_all add: and_then_assoc)

lemma for_of_concat: "for_of (concat (map g xs)) f = for_of xs (\<lambda>x. for_of (g x) f)"
  by (induction xs) (simp_all add: for_of_append)

lemma for_of_cong: "(\<And>x. x \<in> set xs \<Longrightarrow> f x = g x) \<Longrightarrow> for_of xs f = for_of xs g"
  by (induction xs) simp_all

lemma children_leaf: "\<not> (isDocumentNode nd \<or> isElementNode nd) \<Longrightarrow> children nd = []"
  by (auto simp: isDocumentNode_def isElementNode_def children_def split: body.splits)

section \<open>A traversal is a loop over the pre-order\<close>

lemma walk_preorder: "tree_within n h r \<Longrightarrow> walk n h r cb = for_of (preorder n h r) cb"
proof (induction n arbitrary: r)
  case 0
  then show ?case by simp
next
  case (Suc n)
  have kids: "\<And>c. c \<in> set (children (h ! r)) \<Longrightarrow> walk n h c cb = for_of (preorder n h c) cb"
    using Suc by (simp add: list_all_iff)
  have "for_of (children (h ! r)) (\<lambda>child. walk n h child cb)
      = for_of (concat (map (preorder n h) (children (h ! r)))) cb"
    by (simp add: for_of_concat for_of_cong [OF kids])
  then show ?case by (simp add: children_leaf)
qed

lemma visit_hooks: "tree_within n h r \<Longrightarrow> visit n h r v = for_of (hook_sequence n h r) (invoke v)"
proof (induction n arbitrary: r)
  case 0
  then show ?case by simp
next
  case (Suc n)
  have kids: "\<And>c. c \<in> set (children (h ! r)) \<Longrightarrow> visit n h c v = for_of (hook_sequence n h c) (invoke v)"
    using Suc by (simp add: list_all_iff)
  have loop: "for_of (children (h ! r)) (\<lambda>child. visit n h child v)
      = for_of (concat (map (hook_sequence n h) (children (h ! r)))) (invoke v)"
    by (simp add: for_of_concat for_of_cong [OF kids])
  show ?case
  proof (cases "body (h ! r)")
    case (Document cs)
    then show ?thesis using loop
      by (simp add: isDocumentNode_def isElementNode_def isTextNode_def kind_hook_def invoke_def
          callback_of_def for_of_append and_then_assoc)
  next
    case (Element t cs)
    then show ?thesis using loop
      by (simp add: isDocumentNode_def isElementNode_def isTextNode_def kind_hook_def invoke_def
          callback_of_def for_of_append and_then_assoc)
  next
    case (Text s)
    then show ?thesis
      by (simp add: isDocumentNode_def isElementNode_def isTextNode_def kind_hook_def invoke_def
          callback_of_def for_of_append and_then_assoc)
  qed
qed

lemma invoke_recorder:
  "invoke (recorder P) (k, r) log = Some (Inr (), if k \<in> P then log @ [(k, r)] else log)"
  by (cases k) (simp_all add: invoke_def callback_of_def recorder_def record_hook_def
      optional_call_def return_value_def)

lemma for_of_recorder:
  "for_of xs (invoke (recorder P)) log = Some (Inr (), log @ filter (\<lambda>(k, r). k \<in> P) xs)"
proof (induction xs arbitrary: log)
  case Nil
  then show ?case by (simp add: return_value_def)
next
  case (Cons x xs)
  obtain k r where x: "x = (k, r)" by (cases x)
  show ?case by (simp add: x and_then_def invoke_recorder Cons)
qed

section \<open>A sufficient budget can be raised without effect\<close>

lemma tree_within_Suc: "tree_within n h r \<Longrightarrow> tree_within (Suc n) h r"
proof (induction n arbitrary: r)
  case 0
  then show ?case by simp
next
  case (Suc n)
  have r: "r < length h" and kids: "\<forall>c\<in>set (children (h ! r)). tree_within n h c"
    using Suc.prems by (simp_all add: list_all_iff)
  have next_level: "list_all (tree_within (Suc n) h) (children (h ! r))"
    using kids Suc.IH unfolding list_all_iff by blast
  have "tree_within (Suc (Suc n)) h r
      = (r < length h \<and> list_all (tree_within (Suc n) h) (children (h ! r)))"
    by (rule tree_within.simps(2))
  then show ?case using r next_level by blast
qed

lemma tree_within_mono: "tree_within n h r \<Longrightarrow> n \<le> m \<Longrightarrow> tree_within m h r"
proof (induction m)
  case 0
  then show ?case by simp
next
  case (Suc m)
  show ?case
  proof (cases "n = Suc m")
    case True
    then show ?thesis using Suc.prems by simp
  next
    case False
    then have "tree_within m h r" using Suc by simp
    then show ?thesis by (rule tree_within_Suc)
  qed
qed

lemma preorder_Suc: "tree_within n h r \<Longrightarrow> preorder (Suc n) h r = preorder n h r"
proof (induction n arbitrary: r)
  case 0
  then show ?case by simp
next
  case (Suc n)
  then have "map (preorder (Suc n) h) (children (h ! r)) = map (preorder n h) (children (h ! r))"
    by (simp add: list_all_iff)
  then show ?case by (simp only: preorder.simps)
qed

lemma hook_sequence_Suc: "tree_within n h r \<Longrightarrow> hook_sequence (Suc n) h r = hook_sequence n h r"
proof (induction n arbitrary: r)
  case 0
  then show ?case by simp
next
  case (Suc n)
  then have "map (hook_sequence (Suc n) h) (children (h ! r)) = map (hook_sequence n h) (children (h ! r))"
    by (simp add: list_all_iff)
  then show ?case by (simp only: hook_sequence.simps)
qed

lemma walk_Suc: "tree_within n h r \<Longrightarrow> walk (Suc n) h r cb = walk n h r cb"
  by (simp only: walk_preorder tree_within_Suc preorder_Suc)

lemma visit_Suc: "tree_within n h r \<Longrightarrow> visit (Suc n) h r v = visit n h r v"
  by (simp only: visit_hooks tree_within_Suc hook_sequence_Suc)

section \<open>The store of the end-to-end scenario\<close>

lemma example_tree_eq: "example_tree = (5, example_heap)"
proof -
  let ?hello = "\<lparr>body = Text ''Hello '', node_start = 0, node_end = 6, parent = None\<rparr>"
  let ?world = "\<lparr>body = Text ''World'', node_start = 0, node_end = 5, parent = None\<rparr>"
  let ?excl = "\<lparr>body = Text ''!'', node_start = 0, node_end = 1, parent = None\<rparr>"
  let ?bold = "\<lparr>body = Element ''bold'' [1], node_start = 0, node_end = 0, parent = None\<rparr>"
  let ?red = "\<lparr>body = Element ''red'' [0, 3, 2], node_start = 0, node_end = 0, parent = None\<rparr>"
  have s1: "createText ''Hello '' 0 6 [] = (0, [?hello])"
    by (simp add: createText_def)
  have s2: "createText ''World'' 0 5 [?hello] = (1, [?hello, ?world])"
    by (simp add: createText_def)
  have s3: "createText ''!'' 0 1 [?hello, ?world] = (2, [?hello, ?world, ?excl])"
    by (simp add: createText_def)
  have s4: "createElement ''bold'' [1] 0 0 [?hello, ?world, ?excl]
      = (3, [?hello, ?world\<lparr>parent := Some 3\<rparr>, ?excl, ?bold])"
    by (simp add: createElement_def attach_def push_child_def set_parent_def set_children_def children_def Let_def)
  have s5: "createElement ''red'' [0, 3, 2] 0 0 [?hello, ?world\<lparr>parent := Some 3\<rparr>, ?excl, ?bold]
      = (4, [?hello\<lparr>parent := Some 4\<rparr>, ?world\<lparr>parent := Some 3\<rparr>, ?excl\<lparr>parent := Some 4\<rparr>,
             ?bold\<lparr>parent := Some 4\<rparr>, ?red])"
    by (simp add: createElement_def attach_def push_child_def set_parent_def set_children_def children_def Let_def)
  have s6: "createDocument [4] 0 0
        [?hello\<lparr>parent := Some 4\<rparr>, ?world\<lparr>parent := Some 3\<rparr>, ?excl\<lparr>parent := Some 4\<rparr>,
         ?bold\<lparr>parent := Some 4\<rparr>, ?red]
      = (5, example_heap)"
    by (simp add: createDocument_def attach_def push_child_def set_parent_def set_children_def children_def
        Let_def example_heap_def)
  show ?thesis
    unfolding example_tree_def s1 Let_def prod.case s2 s3 s4 s5 s6 by simp
qed

lemma example_cells:
  "example_heap ! 0 = \<lparr>body = Text ''Hello '', node_start = 0, node_end = 6, parent = Some 4\<rparr>"
  "example_heap ! 1 = \<lparr>body = Text ''World'', node_start = 0, node_end = 5, parent = Some 3\<rparr>"
  "example_heap ! Suc 0 = \<lparr>body = Text ''World'', node_start = 0, node_end = 5, parent = Some 3\<rparr>"
  "example_heap ! 2 = \<lparr>body = Text ''!'', node_start = 0, node_end = 1, parent = Some 4\<rparr>"
  "example_heap ! 3 = \<lparr>body = Element ''bold'' [1], node_start = 0, node_end = 0, parent = Some 4\<rparr>"
  "example_heap ! 4 = \<lparr>body = Element ''red'' [0, 3, 2], node_start = 0, node_end = 0, parent = Some 5\<rparr>"
  "example_heap ! 5 = \<lparr>body = Document [4], node_start = 0, node_end = 0, parent = None\<rparr>"
  "length example_heap = 6"
  by (simp_all add: example_heap_def)

lemmas example_simps =
  example_cells children_def isDocumentNode_def isElementNode_def isTextNode_def tagName_def content_def

lemma example_tree_within: "tree_within (Suc (Suc (Suc (Suc m)))) example_heap 5"
  by (simp add: example_simps)

lemma example_preorder: "preorder (Suc (Suc (Suc (Suc m)))) example_heap 5 = [5, 4, 0, 3, 1, 2]"
  by (simp add: example_simps)

lemma example_hook_sequence:
  "hook_sequence (Suc (Suc (Suc (Suc m)))) example_heap 5 =
     [(EnterNode, 5), (VisitDocument, 5),
        (EnterNode, 4), (VisitElement, 4),
          (EnterNode, 0), (VisitText, 0), (ExitNode, 0),
          (EnterNode, 3), (VisitElement, 3),
            (EnterNode, 1), (VisitText, 1), (ExitNode, 1),
          (ExitNode, 3),
          (EnterNode, 2), (VisitText, 2), (ExitNode, 2),
        (ExitNode, 4),
      (ExitNode, 5)]"
  by (simp add: example_simps kind_hook_def)

section \<open>Dispatch of transform\<close>

lemma call_user_not_Error: "call_user m s \<noteq> Some (Inl (Error msg), s')"
  by (auto simp: call_user_def split: option.splits sum.splits prod.splits)

lemma transform_registered:
  "matching_callback t (h ! node) = Some f \<Longrightarrow> transform h node t = call_user (f node)"
  by (auto simp: transform_def matching_callback_def isDocumentNode_def isElementNode_def
      isTextNode_def split: body.splits)

lemma transform_missing:
  "matching_callback t (h ! node) = None \<Longrightarrow> transform h node t = no_transformer_method (h ! node)"
  by (auto simp: transform_def matching_callback_def isDocumentNode_def isElementNode_def
      isTextNode_def split: body.splits)

lemma matching_callback_kind:
  "isDocumentNode nd \<Longrightarrow> matching_callback t nd = visitDocument t"
  "isElementNode nd \<Longrightarrow> matching_callback t nd = visitElement t"
  "isTextNode nd \<Longrightarrow> matching_callback t nd = visitText t"
  by (auto simp: matching_callback_def isDocumentNode_def isElementNode_def isTextNode_def
      split: body.splits)

lemma transform_outcome:
  "matching_callback t (h ! node) = Some f \<Longrightarrow>
     transform h node t s
       = (case f node s of
            None \<Rightarrow> None
          | Some (Inl e, s') \<Rightarrow> Some (Inl (Thrown e), s')
          | Some (Inr a, s') \<Rightarrow> Some (Inr a, s'))"
  by (simp add: transform_registered call_user_def)

lemma transform_missing_eq:
  "matching_callback t (h ! node) = None \<Longrightarrow>
     transform h node t s
       = Some (Inl (Error (''No transformer method found for node type: '' @ nodeType (h ! node))), s)"
  by (simp only: transform_missing no_transformer_method_def throw_def)

lemma transform_returns:
  assumes "matching_callback t (h ! node) = Some f" and "f node s = Some (Inr a, s')"
  shows "transform h node t s = Some (Inr a, s')"
  by (simp add: transform_outcome [OF assms(1)] assms(2))

lemma transform_rethrows:
  assumes "matching_callback t (h ! node) = Some f" and "f node s = Some (Inl e, s')"
  shows "transform h node t s = Some (Inl (Thrown e), s')"
  by (simp add: transform_outcome [OF assms(1)] assms(2))

lemma transform_returned_by_callback:
  assumes "transform h node t s = Some (Inr a, s')"
  shows "\<exists>f. matching_callback t (h ! node) = Some f \<and> f node s = Some (Inr a, s')"
proof (cases "matching_callback t (h ! node)")
  case None
  have "transform h node t s
       = Some (Inl (Error (''No transformer method found for node type: '' @ nodeType (h ! node))), s)"
    using None by (rule transform_missing_eq)
  then have False using assms by (simp only: option.inject prod.inject sum.distinct simp_thms)
  then show ?thesis ..
next
  case (Some f)
  have "f node s = Some (Inr a, s')"
    using assms unfolding transform_outcome [OF Some]
    by (auto split: option.splits sum.splits prod.splits)
  then show ?thesis using Some by blast
qed

lemma transform_own_error:
  "(\<exists>msg s'. transform h node t s = Some (Inl (Error msg), s'))
     \<longleftrightarrow> matching_callback t (h ! node) = None"
proof (cases "matching_callback t (h ! node)")
  case None
  have "\<exists>msg s'. transform h node t s = Some (Inl (Error msg), s')"
    by (intro exI) (rule transform_missing_eq [OF None])
  then show ?thesis using None by (simp only: simp_thms)
next
  case (Some f)
  have "transform h node t s \<noteq> Some (Inl (Error msg), s')" for msg s'
    unfolding transform_registered [OF Some] by (rule call_user_not_Error)
  then show ?thesis using Some by simp
qed

lemma transform_text_missing:
  assumes "isTextNode (h ! node) \<and> visitText t = None"
  shows "transform h node t s
     = Some (Inl (Error ''No transformer method found for node type: text''), s)"
proof -
  have none: "matching_callback t (h ! node) = None"
    using assms by (simp add: matching_callback_kind)
  have "nodeType (h ! node) = ''text''"
    using assms by (auto simp: isTextNode_def nodeType_def split: body.splits)
  then have "''No transformer method found for node type: '' @ nodeType (h ! node)
      = ''No transformer method found for node type: text''"
    by simp
  then show ?thesis using transform_missing_eq [OF none, of s] by (simp only:)
qed

text \<open>
  Claim C1.  \<open>transform\<close> runs exactly the callback registered for the kind of the node,
  once, on the node itself and in the state it was called in, and its outcome is the
  outcome of that callback: the value the callback returns is returned with the state the
  callback leaves, a value the callback throws is thrown on, and nothing else runs, so no
  child is visited.  A value is returned only if the registered callback returned it.
  \<open>transform\<close> throws an \<open>Error\<close> of its own exactly when no callback is registered for
  the kind of the node, and then the state is untouched; in particular a text node
  against a transformer without \<open>visitText\<close> throws.
\<close>

theorem transform_dispatch:
  "(case matching_callback t (h ! node) of
      Some f \<Rightarrow>
        transform h node t s = call_user (f node) s
        \<and> transform h node t s
            = (case f node s of
                 None \<Rightarrow> None
               | Some (Inl e, s') \<Rightarrow> Some (Inl (Thrown e), s')
               | Some (Inr a, s') \<Rightarrow> Some (Inr a, s'))
    | None \<Rightarrow> transform h node t s =
        Some (Inl (Error (''No transformer method found for node type: '' @ nodeType (h ! node))), s))
   \<and> (\<forall>f a s'. isDocumentNode (h ! node) \<and> visitDocument t = Some f \<and> f node s = Some (Inr a, s')
         \<longrightarrow> transform h node t s = Some (Inr a, s'))
   \<and> (\<forall>f a s'. isElementNode (h ! node) \<and> visitElement t = Some f \<and> f node s = Some (Inr a, s')
         \<longrightarrow> transform h node t s = Some (Inr a, s'))
   \<and> (\<forall>f a s'. isTextNode (h ! node) \<and> visitText t = Some f \<and> f node s = Some (Inr a, s')
         \<longrightarrow> transform h node t s = Some (Inr a, s'))
   \<and> (\<forall>f e s'. matching_callback t (h ! node) = Some f \<and> f node s = Some (Inl e, s')
         \<longrightarrow> transform h node t s = Some (Inl (Thrown e), s'))
   \<and> (\<forall>a s'. transform h node t s = Some (Inr a, s')
         \<longrightarrow> (\<exists>f. matching_callback t (h ! node) = Some f \<and> f node s = Some (Inr a, s')))
   \<and> ((\<exists>msg s'. transform h node t s = Some (Inl (Error msg), s'))
        \<longleftrightarrow> matching_callback t (h ! node) = None)
   \<and> (isTextNode (h ! node) \<and> visitText t = None
        \<longrightarrow> transform h node t s = Some (Inl (Error ''No transformer method found for node type: text''), s))"
proof (intro conjI allI impI)
  show "case matching_callback t (h ! node) of
      Some f \<Rightarrow>
        transform h node t s = call_user (f node) s
        \<and> transform h node t s
            = (case f node s of
                 None \<Rightarrow> None
               | Some (Inl e, s') \<Rightarrow> Some (Inl (Thrown e), s')
               | Some (Inr a, s') \<Rightarrow> Some (Inr a, s'))
    | None \<Rightarrow> transform h node t s =
        Some (Inl (Error (''No transformer method found for node type: '' @ nodeType (h ! node))), s)"
  proof (cases "matching_callback t (h ! node)")
    case None
    show ?thesis unfolding None option.case by (rule transform_missing_eq [OF None])
  next
    case (Some f)
    show ?thesis unfolding Some option.case
      by (intro conjI) (simp add: transform_registered [OF Some], rule transform_outcome [OF Some])
  qed
next
  fix f a s'
  assume "isDocumentNode (h ! node) \<and> visitDocument t = Some f \<and> f node s = Some (Inr a, s')"
  then have "matching_callback t (h ! node) = Some f" and "f node s = Some (Inr a, s')"
    by (simp_all add: matching_callback_kind)
  then show "transform h node t s = Some (Inr a, s')" by (rule transform_returns)
next
  fix f a s'
  assume "isElementNode (h ! node) \<and> visitElement t = Some f \<and> f node s = Some (Inr a, s')"
  then have "matching_callback t (h ! node) = Some f" and "f node s = Some (Inr a, s')"
    by (simp_all add: matching_callback_kind)
  then show "transform h node t s = Some (Inr a, s')" by (rule transform_returns)
next
  fix f a s'
  assume "isTextNode (h ! node) \<and> visitText t = Some f \<and> f node s = Some (Inr a, s')"
  then have "matching_callback t (h ! node) = Some f" and "f node s = Some (Inr a, s')"
    by (simp_all add: matching_callback_kind)
  then show "transform h node t s = Some (Inr a, s')" by (rule transform_returns)
next
  fix f e s'
  assume "matching_callback t (h ! node) = Some f \<and> f node s = Some (Inl e, s')"
  then have "matching_callback t (h ! node) = Some f" and "f node s = Some (Inl e, s')"
    by simp_all
  then show "transform h node t s = Some (Inl (Thrown e), s')" by (rule transform_rethrows)
next
  fix a s'
  assume "transform h node t s = Some (Inr a, s')"
  then show "\<exists>f. matching_callback t (h ! node) = Some f \<and> f node s = Some (Inr a, s')"
    by (rule transform_returned_by_callback)
next
  show "(\<exists>msg s'. transform h node t s = Some (Inl (Error msg), s'))
        \<longleftrightarrow> matching_callback t (h ! node) = None"
    by (rule transform_own_error)
next
  assume "isTextNode (h ! node) \<and> visitText t = None"
  then show "transform h node t s
      = Some (Inl (Error ''No transformer method found for node type: text''), s)"
    by (rule transform_text_missing)
qed

theorem transform_dispatch_witness:
  "isTextNode ([\<lparr>body = Text ''Hello'', node_start = 0, node_end = 5, parent = None\<rparr>] ! 0)
   \<and> transform [\<lparr>body = Text ''Hello'', node_start = 0, node_end = 5, parent = None\<rparr>] 0
        (\<lparr>visitDocument = None, visitElement = None,
          visitText = Some (\<lambda>r s. Some (Inr (''Text: '' @ content
            ([\<lparr>body = Text ''Hello'', node_start = 0, node_end = 5, parent = None\<rparr>] ! r)), s))\<rparr>
           :: (unit, unit, string) transformer) ()
      = Some (Inr ''Text: Hello'', ())
   \<and> transform [\<lparr>body = Text ''Hello'', node_start = 0, node_end = 5, parent = None\<rparr>] 0
        (\<lparr>visitDocument = None, visitElement = None,
          visitText = Some (\<lambda>r s. Some (Inl ''boom'', s))\<rparr> :: (unit, string, string) transformer) ()
      = Some (Inl (Thrown ''boom''), ())
   \<and> transform [\<lparr>body = Text ''Hello'', node_start = 0, node_end = 5, parent = None\<rparr>] 0
        (\<lparr>visitDocument = None, visitElement = None, visitText = None\<rparr> :: (unit, unit, string) transformer) ()
      = Some (Inl (Error ''No transformer method found for node type: text''), ())"
proof -
  let ?h = "[\<lparr>body = Text ''Hello'', node_start = 0, node_end = 5, parent = None\<rparr>]"
  let ?f = "\<lambda>(r::ref) (s::unit). Some (Inr (''Text: '' @ content (?h ! r)) :: unit + string, s)"
  let ?g = "\<lambda>(r::ref) (s::unit). Some (Inl ''boom'' :: string + string, s)"
  let ?t1 = "\<lparr>visitDocument = None, visitElement = None, visitText = Some ?f\<rparr>"
  let ?t2 = "\<lparr>visitDocument = None, visitElement = None, visitText = Some ?g\<rparr>"
  let ?t0 = "\<lparr>visitDocument = None, visitElement = None, visitText = None\<rparr> :: (unit, unit, string) transformer"
  have is_text: "isTextNode (?h ! 0)"
    by (simp add: isTextNode_def)
  have returns: "isTextNode (?h ! 0) \<and> visitText ?t1 = Some ?f \<and> ?f 0 () = Some (Inr ''Text: Hello'', ())"
    by (simp add: isTextNode_def content_def)
  have r1: "transform ?h 0 ?t1 () = Some (Inr ''Text: Hello'', ())"
    using transform_dispatch [where t = ?t1 and h = ?h and node = 0 and s = "()",
        THEN conjunct2, THEN conjunct2, THEN conjunct2, THEN conjunct1,
        THEN spec, THEN spec, THEN spec, THEN mp, OF returns] .
  have throws: "matching_callback ?t2 (?h ! 0) = Some ?g \<and> ?g 0 () = Some (Inl ''boom'', ())"
    by (simp add: matching_callback_def)
  have r2: "transform ?h 0 ?t2 () = Some (Inl (Thrown ''boom''), ())"
    using transform_dispatch [where t = ?t2 and h = ?h and node = 0 and s = "()",
        THEN conjunct2, THEN conjunct2, THEN conjunct2, THEN conjunct2, THEN conjunct1,
        THEN spec, THEN spec, THEN spec, THEN mp, OF throws] .
  have missing: "isTextNode (?h ! 0) \<and> visitText ?t0 = None"
    by (simp add: isTextNode_def)
  have r0: "transform ?h 0 ?t0 ()
      = Some (Inl (Error ''No transformer method found for node type: text''), ())"
    using transform_dispatch [where t = ?t0 and h = ?h and node = 0 and s = "()",
        THEN conjunct2, THEN conjunct2, THEN conjunct2, THEN conjunct2, THEN conjunct2,
        THEN conjunct2, THEN conjunct2, THEN mp, OF missing] .
  from is_text r1 r2 r0 show ?thesis by (intro conjI)
qed

section \<open>Order of the hooks of visit\<close>

text \<open>
  Claim C2.  On every tree and for every visitor, \<open>visit\<close> is the loop that runs, for
  each entry of the hook sequence of the node in order, the callback of that name if the
  visitor has it and nothing otherwise; the hook sequence of a node is the enter hook,
  the callback of its kind, the hook sequences of its children in order when it is a
  document or an element, and the exit hook.  In particular a visitor that has exactly
  the callbacks in \<open>P\<close> and logs each invocation ends without error with the hook
  sequence restricted to \<open>P\<close> appended to its log.
\<close>

theorem visit_hook_sequence:
  "tree_within n h node \<Longrightarrow>
     visit n h node v = for_of (hook_sequence n h node) (invoke v)
     \<and> visit n h node (recorder P) log
         = Some (Inr (), log @ filter (\<lambda>(k, r). k \<in> P) (hook_sequence n h node))"
  by (simp add: visit_hooks for_of_recorder)

theorem visit_hook_sequence_witness:
  "tree_within (Suc (Suc (Suc (Suc 0)))) example_heap 5
   \<and> visit (Suc (Suc (Suc (Suc 0)))) example_heap 5 (recorder {EnterNode, VisitText, ExitNode}) []
       = Some (Inr (),
           [(EnterNode, 5), (EnterNode, 4), (EnterNode, 0), (VisitText, 0), (ExitNode, 0),
            (EnterNode, 3), (EnterNode, 1), (VisitText, 1), (ExitNode, 1), (ExitNode, 3),
            (EnterNode, 2), (VisitText, 2), (ExitNode, 2), (ExitNode, 4), (ExitNode, 5)])"
  using visit_hook_sequence [OF example_tree_within [of 0], of "recorder {}" "{EnterNode, VisitText, ExitNode}" "[]"]
  by (simp add: example_tree_within example_hook_sequence
      del: visit.simps hook_sequence.simps tree_within.simps)

section \<open>Search\<close>

lemma findFirst_list:
  "local_variable l (try_catch_all (for_of xs (findFirst_callback p))) u
   = (case first_match p xs u of
        None \<Rightarrow> None
      | Some (Inl e, u') \<Rightarrow> Some (Inr l, u')
      | Some (Inr None, u') \<Rightarrow> Some (Inr l, u')
      | Some (Inr (Some x), u') \<Rightarrow> Some (Inr (Some x), u'))"
proof (induction xs arbitrary: u)
  case Nil
  show ?case
    by (simp add: local_variable_def try_catch_all_def return_value_def)
next
  case (Cons x xs)
  show ?case
  proof (cases "p x u")
    case None
    then show ?thesis
      by (simp add: local_variable_def try_catch_all_def findFirst_callback_def and_then_def
          in_caller_def call_user_def)
  next
    case (Some res)
    obtain r u' where res: "res = (r, u')" by (cases res)
    show ?thesis
    proof (cases r)
      case (Inl e)
      then show ?thesis using Some res
        by (simp add: local_variable_def try_catch_all_def findFirst_callback_def and_then_def
            in_caller_def call_user_def)
    next
      case (Inr b)
      show ?thesis
      proof (cases b)
        case True
        then show ?thesis using Some res Inr
          by (simp add: local_variable_def try_catch_all_def findFirst_callback_def and_then_def
              in_caller_def call_user_def assign_local_def throw_def)
      next
        case False
        have "local_variable l (try_catch_all (for_of (x # xs) (findFirst_callback p))) u
            = local_variable l (try_catch_all (for_of xs (findFirst_callback p))) u'"
          using Some res Inr False
          by (simp add: local_variable_def try_catch_all_def findFirst_callback_def and_then_def
              in_caller_def call_user_def return_value_def)
        then show ?thesis using Some res Inr False Cons [of u'] by simp
      qed
    qed
  qed
qed

lemma first_match_Inr: "first_match p xs u = Some (r, u') \<Longrightarrow> \<exists>m. r = Inr m"
proof (induction xs arbitrary: u)
  case Nil
  then show ?case by (auto simp: return_value_def)
next
  case (Cons x xs)
  then show ?case by (auto split: option.splits sum.splits prod.splits if_splits)
qed

lemma findFirst_preorder:
  assumes "tree_within n h root"
  shows "findFirst n h root p u = first_match p (preorder n h root) u"
proof -
  have "findFirst n h root p u
      = local_variable None (try_catch_all (for_of (preorder n h root) (findFirst_callback p))) u"
    by (simp add: findFirst_def walk_preorder [OF assms])
  also have "\<dots> = first_match p (preorder n h root) u"
  proof (cases "first_match p (preorder n h root) u")
    case None
    then show ?thesis by (simp add: findFirst_list)
  next
    case (Some res)
    obtain r u' where res: "res = (r, u')" by (cases res)
    have "first_match p (preorder n h root) u = Some (r, u')" using Some res by simp
    from first_match_Inr [OF this] obtain m where "r = Inr m" by blast
    then show ?thesis using Some res by (cases m) (simp_all add: findFirst_list)
  qed
  finally show ?thesis .
qed

lemma first_match_observed:
  "first_match (observed P) xs log
   = Some (Inr (find P xs),
       log @ takeWhile (\<lambda>x. \<not> P x) xs @ (case find P xs of None \<Rightarrow> [] | Some x \<Rightarrow> [x]))"
  by (induction xs arbitrary: log) (simp_all add: observed_def return_value_def)

lemma findAll_list_observed:
  "local_variable acc (for_of xs (findAll_callback (observed P))) log
   = Some (Inr (acc @ filter P xs), log @ xs)"
proof (induction xs arbitrary: acc log)
  case Nil
  show ?case by (simp add: local_variable_def return_value_def)
next
  case (Cons x xs)
  have "local_variable acc (for_of (x # xs) (findAll_callback (observed P))) log
      = local_variable (if P x then acc @ [x] else acc) (for_of xs (findAll_callback (observed P))) (log @ [x])"
    by (simp add: local_variable_def findAll_callback_def and_then_def in_caller_def observed_def
        assign_local_def return_value_def)
  also have "\<dots> = Some (Inr ((if P x then acc @ [x] else acc) @ filter P xs), (log @ [x]) @ xs)"
    by (rule Cons)
  also have "\<dots> = Some (Inr (acc @ filter P (x # xs)), log @ x # xs)"
    by simp
  finally show ?case .
qed

lemma find_filter: "find P xs = (case filter P xs of [] \<Rightarrow> None | y # ys \<Rightarrow> Some y)"
  by (induction xs) simp_all

lemma first_match_throws:
  "(\<forall>y\<in>set pre. q y = Inr False) \<Longrightarrow> q x = Inl e
   \<Longrightarrow> first_match (stateless q) (pre @ x # post) u = Some (Inr None, u)"
  by (induction pre) (simp_all add: stateless_def)

lemma first_match_never: "first_match (stateless (\<lambda>y. Inr False)) xs u = Some (Inr None, u)"
  by (induction xs) (simp_all add: stateless_def return_value_def)

text \<open>
  Claim C3.  On every tree, for a predicate that answers \<open>P\<close> without throwing,
  \<open>findFirst\<close> returns the first node of the pre-order where \<open>P\<close> holds, which is the
  first element of the result of \<open>findAll\<close>, and returns the absent result when there is
  none.  The log of the nodes the predicate was applied to is the pre-order up to and
  including the match: the predicate is applied to no node after it, whereas \<open>findAll\<close>
  applies it to the whole pre-order.
\<close>

theorem findFirst_first_in_preorder:
  "tree_within n h root \<Longrightarrow>
     findFirst n h root (observed P) log
       = Some (Inr (find P (preorder n h root)),
           log @ takeWhile (\<lambda>x. \<not> P x) (preorder n h root)
               @ (case find P (preorder n h root) of None \<Rightarrow> [] | Some x \<Rightarrow> [x]))
     \<and> findAll n h root (observed P) log
         = Some (Inr (filter P (preorder n h root)), log @ preorder n h root)
     \<and> find P (preorder n h root)
         = (case filter P (preorder n h root) of [] \<Rightarrow> None | y # ys \<Rightarrow> Some y)"
  by (simp add: findFirst_preorder first_match_observed findAll_def walk_preorder
      findAll_list_observed find_filter [symmetric])

theorem findFirst_first_in_preorder_witness:
  "tree_within (Suc (Suc (Suc (Suc 0)))) example_heap 5
   \<and> findFirst (Suc (Suc (Suc (Suc 0)))) example_heap 5 (observed (\<lambda>r. isTextNode (example_heap ! r))) []
       = Some (Inr (Some 0), [5, 4, 0])
   \<and> findAll (Suc (Suc (Suc (Suc 0)))) example_heap 5 (observed (\<lambda>r. isTextNode (example_heap ! r))) []
       = Some (Inr [0, 1, 2], [5, 4, 0, 3, 1, 2])"
  using findFirst_first_in_preorder [OF example_tree_within [of 0],
      of "\<lambda>r. isTextNode (example_heap ! r)" "[]"]
  by (simp add: example_tree_within example_preorder example_simps
      del: tree_within.simps preorder.simps)

lemma findFirst_never_throws:
  assumes "tree_within n h root" and "findFirst n h root p u = Some (r, u')"
  shows "\<exists>m. r = Inr m"
proof -
  have "first_match p (preorder n h root) u = Some (r, u')"
    using assms by (simp add: findFirst_preorder)
  from first_match_Inr [OF this] show ?thesis .
qed

text \<open>
  Claim C10.  \<open>findFirst\<close> never throws.  If the predicate throws on a node of the
  pre-order and answered false on every node before it, \<open>findFirst\<close> returns the absent
  result, which is also what it returns for a predicate that answers false everywhere.
\<close>

theorem findFirst_swallows_exceptions:
  assumes tree: "tree_within n h root"
    and pre: "preorder n h root = pre @ x # post"
    and before: "\<forall>y\<in>set pre. q y = Inr False"
    and at: "q x = Inl e"
  shows "findFirst n h root (stateless q) u = Some (Inr None, u)
     \<and> findFirst n h root (stateless (\<lambda>y. Inr False)) u = Some (Inr None, u)
     \<and> (\<forall>p u' r u''. findFirst n h root p u' = Some (r, u'') \<longrightarrow> (\<exists>m. r = Inr m))"
proof -
  have throwing: "findFirst n h root (stateless q) u = Some (Inr None, u)"
    by (simp add: findFirst_preorder [OF tree] pre first_match_throws [OF before at])
  have never: "findFirst n h root (stateless (\<lambda>y. Inr False)) u = Some (Inr None, u)"
    by (simp add: findFirst_preorder [OF tree] first_match_never)
  from throwing never show ?thesis
    by (auto dest: findFirst_never_throws [OF tree])
qed

theorem findFirst_swallows_exceptions_witness:
  "tree_within (Suc (Suc (Suc (Suc 0)))) example_heap 5
   \<and> preorder (Suc (Suc (Suc (Suc 0)))) example_heap 5 = [5, 4] @ 0 # [3, 1, 2]
   \<and> findFirst (Suc (Suc (Suc (Suc 0)))) example_heap 5
        (stateless (\<lambda>y. if y = 0 then Inl ''boom'' else Inr False)) () = Some (Inr None, ())"
proof -
  have tree: "tree_within (Suc (Suc (Suc (Suc 0)))) example_heap 5"
    by (rule example_tree_within)
  have pre: "preorder (Suc (Suc (Suc (Suc 0)))) example_heap 5 = [5, 4] @ 0 # [3, 1, 2]"
    by (simp add: example_preorder del: preorder.simps)
  have before: "\<forall>y\<in>set [5, 4 :: ref]. (if y = 0 then Inl ''boom'' else Inr False) = (Inr False :: string + bool)"
    by simp
  have at: "(if (0::nat) = 0 then Inl ''boom'' else Inr False) = (Inl ''boom'' :: string + bool)"
    by simp
  from findFirst_swallows_exceptions [OF tree pre, of "\<lambda>y. if y = 0 then Inl ''boom'' else Inr False", OF before at, of "()"]
  have "findFirst (Suc (Suc (Suc (Suc 0)))) example_heap 5
        (stateless (\<lambda>y. if y = 0 then Inl ''boom'' else Inr False)) () = Some (Inr None, ())"
    by (rule conjunct1)
  with tree pre show ?thesis by blast
qed

section \<open>The end-to-end scenario\<close>

lemma example_getAllText:
  "getAllText (Suc (Suc (Suc (Suc m)))) example_heap 5 () = Some (Inr ''Hello World!'', ())"
  by (simp add: getAllText_def walk_preorder [OF example_tree_within] example_preorder
      local_variable_def and_then_def assign_local_def return_value_def example_simps
      del: preorder.simps)

lemma example_countNodes:
  "countNodes (Suc (Suc (Suc (Suc m)))) example_heap 5 ()
   = Some (Inr \<lparr>count_document = 1, count_element = 2, count_text = 3\<rparr>, ())"
  by (simp add: countNodes_def walk_preorder [OF example_tree_within] example_preorder
      local_variable_def and_then_def assign_local_def return_value_def example_simps
      del: preorder.simps)

lemma example_getMaxDepth:
  "getMaxDepth (Suc (Suc (Suc (Suc m)))) example_heap 5 () = Some (Inr 3, ())"
  by (simp add: getMaxDepth_def local_variable_def and_then_def assign_local_def return_value_def
      example_simps)

lemma example_getElementsWithTag:
  "getElementsWithTag (Suc (Suc (Suc (Suc m)))) example_heap 5 ''bold'' () = Some (Inr [3], ())"
  by (simp add: getElementsWithTag_def findAll_def findAll_callback_def in_caller_def
      walk_preorder [OF example_tree_within] example_preorder
      local_variable_def and_then_def assign_local_def return_value_def example_simps
      del: preorder.simps)

text \<open>
  Claim C8.  The factory calls of the scenario build the store \<open>example_heap\<close> with the
  document as object 5.  On it, with any recursion budget of at least 4, \<open>getAllText\<close>
  returns \<open>Hello World!\<close>, \<open>countNodes\<close> returns one document, two elements and three
  texts, \<open>getMaxDepth\<close> returns 3, and \<open>getElementsWithTag\<close> for \<open>bold\<close> returns exactly
  object 3, which is the \<open>bold\<close> element.
\<close>

theorem end_to_end_scenario:
  "example_tree = (5, example_heap)
   \<and> getAllText (4 + m) example_heap 5 () = Some (Inr ''Hello World!'', ())
   \<and> countNodes (4 + m) example_heap 5 ()
       = Some (Inr \<lparr>count_document = 1, count_element = 2, count_text = 3\<rparr>, ())
   \<and> getMaxDepth (4 + m) example_heap 5 () = Some (Inr 3, ())
   \<and> getElementsWithTag (4 + m) example_heap 5 ''bold'' () = Some (Inr [3], ())
   \<and> body (example_heap ! 3) = Element ''bold'' [1]"
proof -
  have fuel: "4 + m = Suc (Suc (Suc (Suc m)))" by simp
  show ?thesis
    unfolding fuel
    using example_tree_eq example_getAllText [of m] example_countNodes [of m]
      example_getMaxDepth [of m] example_getElementsWithTag [of m] example_cells(5)
    by simp
qed

section \<open>Siblings\<close>

text \<open>
  Claim C9.  \<open>getSiblings\<close> never lists the node itself.  For a node whose parent is a
  document or an element it is the children of the parent with every occurrence of the
  node removed and the order kept; for a node without parent, or with a parent of another
  kind, it is empty.
\<close>

theorem getSiblings_excludes_node:
  "node \<notin> set (getSiblings h node)
   \<and> (case parent (h ! node) of
        None \<Rightarrow> getSiblings h node = []
      | Some p \<Rightarrow>
          if isDocumentNode (h ! p) \<or> isElementNode (h ! p)
          then getSiblings h node = removeAll node (children (h ! p))
          else getSiblings h node = [])"
  by (auto simp: getSiblings_def removeAll_filter_not_eq split: option.splits intro: filter_cong)

section \<open>Removing a child\<close>

lemma splice1_takeWhile:
  "x \<in> set xs \<Longrightarrow> splice1 (length (takeWhile (\<lambda>y. y \<noteq> x) xs)) xs = remove1 x xs"
  by (induction xs) (auto simp: splice1_def)

lemma splice1_indexOf:
  "x \<in> set xs \<Longrightarrow> splice1 (nat (indexOf xs x)) xs = remove1 x xs"
  by (simp add: indexOf_def splice1_takeWhile)

lemma indexOf_absent: "(indexOf xs x = - 1) = (x \<notin> set xs)"
  by (simp add: indexOf_def)

lemma removeChild_present:
  assumes "parent (h ! child) = Some p"
    and "isDocumentNode (h ! p) \<or> isElementNode (h ! p)"
    and "child \<in> set (children (h ! p))"
  shows "removeChild child h =
     (h[p := set_children (h ! p) (remove1 child (children (h ! p)))])
       [child := ((h[p := set_children (h ! p) (remove1 child (children (h ! p)))]) ! child)\<lparr>parent := None\<rparr>]"
  using assms by (simp add: removeChild_def indexOf_absent splice1_indexOf Let_def)

lemma set_children_fields [simp]:
  "node_start (set_children nd cs) = node_start nd"
  "node_end (set_children nd cs) = node_end nd"
  "parent (set_children nd cs) = parent nd"
  "nodeType (set_children nd cs) = nodeType nd"
  "tagName (set_children nd cs) = tagName nd"
  "content (set_children nd cs) = content nd"
  "isDocumentNode (set_children nd cs) = isDocumentNode nd"
  "isElementNode (set_children nd cs) = isElementNode nd"
  "isTextNode (set_children nd cs) = isTextNode nd"
  by (simp_all add: set_children_def nodeType_def tagName_def content_def isDocumentNode_def
      isElementNode_def isTextNode_def split: body.splits)

lemma children_set_children [simp]:
  "isDocumentNode nd \<or> isElementNode nd \<Longrightarrow> children (set_children nd cs) = cs"
  by (auto simp: set_children_def children_def isDocumentNode_def isElementNode_def split: body.splits)

lemma parent_update_fields [simp]:
  "nodeType (nd\<lparr>parent := q\<rparr>) = nodeType nd"
  "tagName (nd\<lparr>parent := q\<rparr>) = tagName nd"
  "content (nd\<lparr>parent := q\<rparr>) = content nd"
  "children (nd\<lparr>parent := q\<rparr>) = children nd"
  "isDocumentNode (nd\<lparr>parent := q\<rparr>) = isDocumentNode nd"
  "isElementNode (nd\<lparr>parent := q\<rparr>) = isElementNode nd"
  "isTextNode (nd\<lparr>parent := q\<rparr>) = isTextNode nd"
  by (simp_all add: nodeType_def tagName_def content_def children_def isDocumentNode_def
      isElementNode_def isTextNode_def)

text \<open>
  Claim C5.  \<open>removeChild\<close> has no exceptional outcome: the source has no \<open>throw\<close> and
  reads \<open>children\<close> only behind the guard.  It returns the store unchanged when the child
  has no parent, when the parent is neither a document nor an element, and when the
  children of the parent do not contain the child.  Otherwise the children of the parent
  lose the first occurrence of the child, the parent of the child becomes absent, and
  every other field of every object stays as it was.
\<close>

theorem removeChild_cases:
  "(parent (h ! child) = None \<longrightarrow> removeChild child h = h)
   \<and> (parent (h ! child) = Some p \<and> \<not> isDocumentNode (h ! p) \<and> \<not> isElementNode (h ! p)
        \<longrightarrow> removeChild child h = h)
   \<and> (parent (h ! child) = Some p \<and> child \<notin> set (children (h ! p))
        \<longrightarrow> removeChild child h = h)
   \<and> (parent (h ! child) = Some p \<and> (isDocumentNode (h ! p) \<or> isElementNode (h ! p))
        \<and> child \<in> set (children (h ! p)) \<and> p < length h \<and> child < length h
        \<longrightarrow> length (removeChild child h) = length h
          \<and> (\<forall>r < length h.
                nodeType (removeChild child h ! r) = nodeType (h ! r)
              \<and> tagName (removeChild child h ! r) = tagName (h ! r)
              \<and> content (removeChild child h ! r) = content (h ! r)
              \<and> node_start (removeChild child h ! r) = node_start (h ! r)
              \<and> node_end (removeChild child h ! r) = node_end (h ! r)
              \<and> parent (removeChild child h ! r) = (if r = child then None else parent (h ! r))
              \<and> children (removeChild child h ! r)
                  = (if r = p then remove1 child (children (h ! r)) else children (h ! r))))"
proof (intro conjI impI)
  show "removeChild child h = h" if "parent (h ! child) = None"
    using that by (simp add: removeChild_def)
  show "removeChild child h = h"
    if "parent (h ! child) = Some p \<and> \<not> isDocumentNode (h ! p) \<and> \<not> isElementNode (h ! p)"
    using that by (simp add: removeChild_def)
  show "removeChild child h = h"
    if "parent (h ! child) = Some p \<and> child \<notin> set (children (h ! p))"
    using that by (simp add: removeChild_def indexOf_absent)
next
  assume a: "parent (h ! child) = Some p \<and> (isDocumentNode (h ! p) \<or> isElementNode (h ! p))
        \<and> child \<in> set (children (h ! p)) \<and> p < length h \<and> child < length h"
  then have eq: "removeChild child h =
     (h[p := set_children (h ! p) (remove1 child (children (h ! p)))])
       [child := ((h[p := set_children (h ! p) (remove1 child (children (h ! p)))]) ! child)\<lparr>parent := None\<rparr>]"
    by (simp add: removeChild_present)
  show "length (removeChild child h) = length h"
    by (simp add: eq)
  show "\<forall>r < length h.
                nodeType (removeChild child h ! r) = nodeType (h ! r)
              \<and> tagName (removeChild child h ! r) = tagName (h ! r)
              \<and> content (removeChild child h ! r) = content (h ! r)
              \<and> node_start (removeChild child h ! r) = node_start (h ! r)
              \<and> node_end (removeChild child h ! r) = node_end (h ! r)
              \<and> parent (removeChild child h ! r) = (if r = child then None else parent (h ! r))
              \<and> children (removeChild child h ! r)
                  = (if r = p then remove1 child (children (h ! r)) else children (h ! r))"
  proof (intro allI impI)
    fix r assume r: "r < length h"
    show "nodeType (removeChild child h ! r) = nodeType (h ! r)
              \<and> tagName (removeChild child h ! r) = tagName (h ! r)
              \<and> content (removeChild child h ! r) = content (h ! r)
              \<and> node_start (removeChild child h ! r) = node_start (h ! r)
              \<and> node_end (removeChild child h ! r) = node_end (h ! r)
              \<and> parent (removeChild child h ! r) = (if r = child then None else parent (h ! r))
              \<and> children (removeChild child h ! r)
                  = (if r = p then remove1 child (children (h ! r)) else children (h ! r))"
      using a r by (cases "r = p") (auto simp: eq nth_list_update)
  qed
qed

theorem removeChild_cases_witness:
  "removeChild 5 example_heap = example_heap
   \<and> removeChild 0 [\<lparr>body = Text ''a'', node_start = 0, node_end = 1, parent = Some 1\<rparr>,
                     \<lparr>body = Text ''b'', node_start = 0, node_end = 1, parent = None\<rparr>]
       = [\<lparr>body = Text ''a'', node_start = 0, node_end = 1, parent = Some 1\<rparr>,
          \<lparr>body = Text ''b'', node_start = 0, node_end = 1, parent = None\<rparr>]
   \<and> removeChild 0 [\<lparr>body = Text ''a'', node_start = 0, node_end = 1, parent = Some 1\<rparr>,
                     \<lparr>body = Element ''red'' [], node_start = 0, node_end = 0, parent = None\<rparr>]
       = [\<lparr>body = Text ''a'', node_start = 0, node_end = 1, parent = Some 1\<rparr>,
          \<lparr>body = Element ''red'' [], node_start = 0, node_end = 0, parent = None\<rparr>]
   \<and> length (removeChild 3 example_heap) = 6
   \<and> children (removeChild 3 example_heap ! 4) = [0, 2]
   \<and> parent (removeChild 3 example_heap ! 3) = None
   \<and> parent (removeChild 3 example_heap ! 4) = Some 5"
proof -
  let ?h2 = "[\<lparr>body = Text ''a'', node_start = 0, node_end = 1, parent = Some 1\<rparr>,
              \<lparr>body = Text ''b'', node_start = 0, node_end = 1, parent = None\<rparr>]"
  let ?h3 = "[\<lparr>body = Text ''a'', node_start = 0, node_end = 1, parent = Some 1\<rparr>,
              \<lparr>body = Element ''red'' [], node_start = 0, node_end = 0, parent = None\<rparr>]"
  have detached: "parent (example_heap ! 5) = None"
    by (simp add: example_cells)
  have c1: "removeChild 5 example_heap = example_heap"
    using removeChild_cases [of example_heap 5 0, THEN conjunct1] detached by simp
  have leaf_parent: "parent (?h2 ! 0) = Some 1 \<and> \<not> isDocumentNode (?h2 ! 1) \<and> \<not> isElementNode (?h2 ! 1)"
    by (simp add: isDocumentNode_def isElementNode_def)
  have c2: "removeChild 0 ?h2 = ?h2"
    using removeChild_cases [of ?h2 0 1, THEN conjunct2, THEN conjunct1] leaf_parent by blast
  have absent: "parent (?h3 ! 0) = Some 1 \<and> 0 \<notin> set (children (?h3 ! 1))"
    by (simp add: children_def)
  have c3: "removeChild 0 ?h3 = ?h3"
    using removeChild_cases [of ?h3 0 1, THEN conjunct2, THEN conjunct2, THEN conjunct1] absent
    by blast
  have present: "parent (example_heap ! 3) = Some 4
      \<and> (isDocumentNode (example_heap ! 4) \<or> isElementNode (example_heap ! 4))
      \<and> 3 \<in> set (children (example_heap ! 4)) \<and> 4 < length example_heap \<and> 3 < length example_heap"
    by (simp add: example_simps)
  note c4 = removeChild_cases [of example_heap 3 4, THEN conjunct2, THEN conjunct2, THEN conjunct2,
      THEN mp, OF present]
  have len: "length (removeChild 3 example_heap) = 6"
    using c4 by (simp add: example_cells)
  have at4: "children (removeChild 3 example_heap ! 4) = [0, 2]
      \<and> parent (removeChild 3 example_heap ! 4) = Some 5"
    using c4 [THEN conjunct2, THEN spec, of 4] by (simp add: example_simps)
  have at3: "parent (removeChild 3 example_heap ! 3) = None"
    using c4 [THEN conjunct2, THEN spec, of 3] by (simp add: example_simps)
  from c1 c2 c3 len at4 at3 show ?thesis by blast
qed

section \<open>Chains of parents\<close>

lemma ancestry_determ: "ancestry h (r # xs) \<Longrightarrow> ancestry h (r # ys) \<Longrightarrow> xs = ys"
proof (induction xs arbitrary: r ys)
  case Nil
  then show ?case by (cases ys) simp_all
next
  case (Cons p xs)
  then obtain ys' where ys: "ys = p # ys'" by (cases ys) auto
  have "ancestry h (p # xs)" and "ancestry h (p # ys')"
    using Cons.prems ys by simp_all
  then have "xs = ys'" by (rule Cons.IH)
  then show ?case using ys by simp
qed

lemma ancestry_suffix: "ancestry h (pre @ c # post) \<Longrightarrow> ancestry h (c # post)"
proof (induction pre)
  case Nil
  then show ?case by simp
next
  case (Cons x pre)
  then show ?case by (cases pre) simp_all
qed

lemma ancestry_distinct: "ancestry h xs \<Longrightarrow> distinct xs"
proof (induction xs)
  case Nil
  then show ?case by simp
next
  case (Cons r rs)
  show ?case
  proof (cases rs)
    case Nil
    then show ?thesis by simp
  next
    case (Cons p ps)
    then have tail: "ancestry h rs" using Cons.prems by simp
    have "r \<notin> set rs"
    proof
      assume "r \<in> set rs"
      then obtain pre post where split: "rs = pre @ r # post" by (auto dest: split_list)
      then have "ancestry h ((r # pre) @ r # post)" using Cons.prems by simp
      then have "ancestry h (r # post)" by (rule ancestry_suffix)
      then have "post = rs" using Cons.prems by (rule ancestry_determ)
      then show False using split by (auto dest: arg_cong [where f = length])
    qed
    then show ?thesis using Cons.IH [OF tail] by simp
  qed
qed

lemma ancestry_last: "ancestry h (r # rs) \<Longrightarrow> parent (h ! last (r # rs)) = None"
  by (induction rs arbitrary: r) simp_all

section \<open>Root lookup\<close>

lemma getRoot_loop_chain: "ancestry h (r # rs) \<Longrightarrow> getRoot_loop h r = Some (last (r # rs))"
proof (induction rs arbitrary: r)
  case Nil
  then show ?case by (subst getRoot_loop.simps) simp
next
  case (Cons p rs)
  then have "getRoot_loop h p = Some (last (p # rs))" by simp
  then show ?case using Cons.prems by (subst getRoot_loop.simps) simp
qed

text \<open>
  Claim C4.  For a node whose chain of parents ends, \<open>getRoot\<close> reaches the last node of
  the chain, the one without parent.  It returns that node when it is a document and
  throws its error exactly when it is not.  \<open>getRoot\<close> has no assignment; the embedding
  gives it the store as an argument and no store as a result, so the tree is the same
  after either outcome.
\<close>

theorem getRoot_document_or_error:
  "ancestry h (node # rest) \<Longrightarrow>
     parent (h ! last (node # rest)) = None
     \<and> getRoot h node
         = Some (if isDocumentNode (h ! last (node # rest)) then Inr (last (node # rest))
                 else Inl (Error ''Root node is not a document node''))
     \<and> ((\<exists>msg. getRoot h node = Some (Inl (Error msg)))
          \<longleftrightarrow> \<not> isDocumentNode (h ! last (node # rest)))"
  by (simp add: getRoot_def getRoot_loop_chain ancestry_last del: last.simps)

theorem getRoot_document_or_error_witness:
  "ancestry example_heap [1, 3, 4, 5]
   \<and> getRoot example_heap 1 = Some (Inr 5)
   \<and> ancestry [\<lparr>body = Text ''a'', node_start = 0, node_end = 1, parent = None\<rparr>] [0]
   \<and> getRoot [\<lparr>body = Text ''a'', node_start = 0, node_end = 1, parent = None\<rparr>] 0
       = Some (Inl (Error ''Root node is not a document node''))"
proof -
  have chain: "ancestry example_heap [1, 3, 4, 5]"
    by (simp add: example_cells)
  have detached: "ancestry [\<lparr>body = Text ''a'', node_start = 0, node_end = 1, parent = None\<rparr>] [0]"
    by simp
  have "getRoot example_heap 1 = Some (Inr 5)"
    using getRoot_document_or_error [OF chain] by (simp add: example_simps)
  moreover have "getRoot [\<lparr>body = Text ''a'', node_start = 0, node_end = 1, parent = None\<rparr>] 0
       = Some (Inl (Error ''Root node is not a document node''))"
    using getRoot_document_or_error [OF detached] by (simp add: isDocumentNode_def)
  ultimately show ?thesis using chain detached by blast
qed

section \<open>Common ancestor\<close>

lemma collect_ancestors_chain:
  "ancestry h (r # rs) \<Longrightarrow> collect_ancestors h (Some r) A = Some (set (r # rs) \<union> A)"
proof (induction rs arbitrary: r A)
  case Nil
  then show ?case
    by (subst collect_ancestors.simps) (simp add: collect_ancestors.simps [of h None])
next
  case (Cons p rs)
  have "ancestry h (p # rs)" using Cons.prems by simp
  then have "collect_ancestors h (Some p) (insert r A) = Some (set (p # rs) \<union> insert r A)"
    by (rule Cons.IH)
  then show ?case using Cons.prems by (subst collect_ancestors.simps) auto
qed

lemma search_ancestors_chain:
  "ancestry h (r # rs) \<Longrightarrow> search_ancestors h A (Some r) = Some (find (\<lambda>x. x \<in> A) (r # rs))"
proof (induction rs arbitrary: r)
  case Nil
  then show ?case
    by (subst search_ancestors.simps) (simp add: search_ancestors.simps [of h A None])
next
  case (Cons p rs)
  then have "search_ancestors h A (Some p) = Some (find (\<lambda>x. x \<in> A) (p # rs))"
    by simp
  then show ?case using Cons.prems by (subst search_ancestors.simps) simp
qed

lemma getCommonAncestor_chains:
  "ancestry h (a # as) \<Longrightarrow> ancestry h (b # bs)
   \<Longrightarrow> getCommonAncestor h a b = Some (find (\<lambda>x. x \<in> set (a # as)) (b # bs))"
  by (simp add: getCommonAncestor_def collect_ancestors_chain search_ancestors_chain
      del: find.simps set_simps)

lemma find_Some_split:
  "find P xs = Some c \<Longrightarrow> \<exists>pre post. xs = pre @ c # post \<and> P c \<and> (\<forall>y\<in>set pre. \<not> P y)"
proof (induction xs)
  case Nil
  then show ?case by simp
next
  case (Cons x xs)
  show ?case
  proof (cases "P x")
    case True
    then have "x = c" using Cons.prems by simp
    then have "x # xs = [] @ c # xs \<and> P c \<and> (\<forall>y\<in>set []. \<not> P y)" using True by simp
    then show ?thesis by blast
  next
    case False
    then have "find P xs = Some c" using Cons.prems by simp
    then obtain pre post where "xs = pre @ c # post" "P c" "\<forall>y\<in>set pre. \<not> P y"
      using Cons.IH by blast
    then have "x # xs = (x # pre) @ c # post \<and> P c \<and> (\<forall>y\<in>set (x # pre). \<not> P y)"
      using False by simp
    then show ?thesis by blast
  qed
qed

lemma nearest_common:
  assumes A: "ancestry h A" and B: "ancestry h B"
    and found: "find (\<lambda>x. x \<in> set A) B = Some c"
  shows "\<exists>pa pb q. A = pa @ c # q \<and> B = pb @ c # q
           \<and> set pa \<inter> set B = {} \<and> set pb \<inter> set A = {}"
proof -
  obtain pb qb where Bs: "B = pb @ c # qb" and cA: "c \<in> set A" and pb: "\<forall>y\<in>set pb. y \<notin> set A"
    using find_Some_split [OF found] by blast
  obtain pa qa where As: "A = pa @ c # qa"
    using cA by (auto dest: split_list)
  have "ancestry h (c # qa)" using A As ancestry_suffix by blast
  moreover have "ancestry h (c # qb)" using B Bs ancestry_suffix by blast
  ultimately have q: "qa = qb" by (rule ancestry_determ)
  have dA: "distinct (pa @ c # qa)" using ancestry_distinct [OF A] As by simp
  have "set pa \<inter> set B = {}"
  proof (rule ccontr)
    assume "set pa \<inter> set B \<noteq> {}"
    then obtain y where y: "y \<in> set pa" "y \<in> set B" by blast
    then have "y \<in> set A" using As by simp
    then have "y \<notin> set pb" using pb by blast
    then have "y = c \<or> y \<in> set qa" using y(2) Bs q by auto
    then show False using dA y(1) by auto
  qed
  moreover have "set pb \<inter> set A = {}" using pb by blast
  ultimately show ?thesis using As Bs q by blast
qed

text \<open>
  Claim C7.  For two nodes whose chains of parents end, \<open>getCommonAncestor\<close> returns the
  first node on the chain of the second that is on the chain of the first.  The result is
  absent exactly when the chains share no node.  A returned node lies on both chains and
  no node before it on either chain lies on the other, so it is the nearest node that is
  an ancestor or self of both.  For two different nodes with the same parent the result
  is that parent, and for a node and itself it is the node.
\<close>

theorem getCommonAncestor_nearest:
  assumes A: "ancestry h (a # as)" and B: "ancestry h (b # bs)"
  shows "getCommonAncestor h a b = Some (find (\<lambda>x. x \<in> set (a # as)) (b # bs))
     \<and> (getCommonAncestor h a b = Some None \<longleftrightarrow> set (a # as) \<inter> set (b # bs) = {})
     \<and> (\<forall>c. getCommonAncestor h a b = Some (Some c) \<longrightarrow>
           (\<exists>pa pb q. a # as = pa @ c # q \<and> b # bs = pb @ c # q
              \<and> set pa \<inter> set (b # bs) = {} \<and> set pb \<inter> set (a # as) = {}))
     \<and> (\<forall>p. parent (h ! a) = Some p \<and> parent (h ! b) = Some p \<and> a \<noteq> b
           \<longrightarrow> getCommonAncestor h a b = Some (Some p))
     \<and> (a = b \<longrightarrow> getCommonAncestor h a b = Some (Some a))"
proof -
  have eq: "getCommonAncestor h a b = Some (find (\<lambda>x. x \<in> set (a # as)) (b # bs))"
    using A B by (rule getCommonAncestor_chains)
  have none: "getCommonAncestor h a b = Some None \<longleftrightarrow> set (a # as) \<inter> set (b # bs) = {}"
    unfolding eq by (auto simp: find_None_iff simp del: find.simps)
  have near: "\<exists>pa pb q. a # as = pa @ c # q \<and> b # bs = pb @ c # q
              \<and> set pa \<inter> set (b # bs) = {} \<and> set pb \<inter> set (a # as) = {}"
    if "getCommonAncestor h a b = Some (Some c)" for c
  proof -
    have "find (\<lambda>x. x \<in> set (a # as)) (b # bs) = Some c" using that eq by simp
    from nearest_common [OF A B this] show ?thesis .
  qed
  have sibling: "getCommonAncestor h a b = Some (Some p)"
    if sib: "parent (h ! a) = Some p \<and> parent (h ! b) = Some p \<and> a \<noteq> b" for p
  proof -
    obtain as' where as: "as = p # as'" using A sib by (cases as) auto
    obtain bs' where bs: "bs = p # bs'" using B sib by (cases bs) auto
    have "ancestry h (p # as')" and "ancestry h (p # bs')"
      using A B as bs by simp_all
    then have same: "as' = bs'" by (rule ancestry_determ)
    have "distinct (b # bs)" using ancestry_distinct [OF B] .
    then have "b \<notin> set (a # as)" using sib as bs same by auto
    then show ?thesis unfolding eq using as bs by simp
  qed
  have self: "getCommonAncestor h a b = Some (Some a)" if "a = b"
    unfolding eq using that by simp
  show ?thesis using eq none near sibling self by blast
qed

theorem getCommonAncestor_nearest_witness:
  "ancestry example_heap [0, 4, 5] \<and> ancestry example_heap [1, 3, 4, 5]
   \<and> ancestry example_heap [2, 4, 5]
   \<and> getCommonAncestor example_heap 0 1 = Some (Some 4)
   \<and> getCommonAncestor example_heap 0 2 = Some (Some 4)
   \<and> getCommonAncestor example_heap 0 0 = Some (Some 0)"
proof -
  have c0: "ancestry example_heap [0, 4, 5]" by (simp add: example_cells)
  have c1: "ancestry example_heap [1, 3, 4, 5]" by (simp add: example_cells)
  have c2: "ancestry example_heap [2, 4, 5]" by (simp add: example_cells)
  have "getCommonAncestor example_heap 0 1 = Some (Some 4)"
    using getCommonAncestor_nearest [OF c0 c1, THEN conjunct1] by simp
  moreover have "getCommonAncestor example_heap 0 2 = Some (Some 4)"
    using getCommonAncestor_nearest [OF c0 c2, THEN conjunct2, THEN conjunct2, THEN conjunct2,
        THEN conjunct1, THEN spec, of 4]
    by (simp add: example_cells)
  moreover have "getCommonAncestor example_heap 0 0 = Some (Some 0)"
    using getCommonAncestor_nearest [OF c0 c0, THEN conjunct2, THEN conjunct2, THEN conjunct2,
        THEN conjunct2]
    by simp
  ultimately show ?thesis using c0 c1 c2 by blast
qed

section \<open>Frames\<close>

lemma unchanged_below_iff:
  "unchanged_below h h' = (length h \<le> length h' \<and> (\<forall>r<length h. h' ! r = h ! r))"
  by (auto simp: unchanged_below_def list_eq_iff_nth_eq)

lemma structure_kept_iff:
  "structure_kept h h' =
     (length h \<le> length h'
      \<and> (\<forall>r<length h. body (h' ! r) = body (h ! r) \<and> node_start (h' ! r) = node_start (h ! r)
            \<and> node_end (h' ! r) = node_end (h ! r)))"
  by (auto simp: structure_kept_def node_structure_def list_eq_iff_nth_eq)

lemma unchanged_below_refl [simp]: "unchanged_below h h"
  by (simp add: unchanged_below_iff)

lemma unchanged_below_trans:
  "unchanged_below h1 h2 \<Longrightarrow> unchanged_below h2 h3 \<Longrightarrow> unchanged_below h1 h3"
  by (auto simp: unchanged_below_iff)

lemma unchanged_below_structure: "unchanged_below h h' \<Longrightarrow> structure_kept h h'"
  by (simp add: unchanged_below_iff structure_kept_iff)

lemma structure_kept_refl [simp]: "structure_kept h h"
  by (simp add: structure_kept_iff)

lemma structure_kept_trans:
  "structure_kept h1 h2 \<Longrightarrow> structure_kept h2 h3 \<Longrightarrow> structure_kept h1 h3"
  by (auto simp: structure_kept_iff)

lemma structure_kept_children:
  "structure_kept h h' \<Longrightarrow> r < length h \<Longrightarrow> children (h' ! r) = children (h ! r)"
  by (simp add: structure_kept_iff children_def)

lemma structure_kept_tree:
  "structure_kept h h' \<Longrightarrow> tree_within n h r
   \<Longrightarrow> tree_within n h' r \<and> shape_of n h' r = shape_of n h r \<and> preorder n h' r = preorder n h r"
proof (induction n arbitrary: r)
  case 0
  then show ?case by simp
next
  case (Suc n)
  have r: "r < length h" and kids: "list_all (tree_within n h) (children (h ! r))"
    using Suc.prems by simp_all
  have same: "body (h' ! r) = body (h ! r)" "node_start (h' ! r) = node_start (h ! r)"
    "node_end (h' ! r) = node_end (h ! r)" "r < length h'"
    using Suc.prems(1) r by (auto simp: structure_kept_iff)
  have ch: "children (h' ! r) = children (h ! r)"
    using same by (simp add: children_def)
  have each: "\<And>c. c \<in> set (children (h ! r)) \<Longrightarrow>
      tree_within n h' c \<and> shape_of n h' c = shape_of n h c \<and> preorder n h' c = preorder n h c"
    using Suc.IH [OF Suc.prems(1)] kids by (simp add: list_all_iff)
  have t: "tree_within (Suc n) h' r"
    using same ch each by (simp add: list_all_iff)
  have m1: "map (shape_of n h') (children (h ! r)) = map (shape_of n h) (children (h ! r))"
    using each by simp
  have s: "shape_of (Suc n) h' r = shape_of (Suc n) h r"
    using same m1 by (auto simp: children_def split: body.splits)
  have m2: "map (preorder n h') (children (h ! r)) = map (preorder n h) (children (h ! r))"
    using each by simp
  have p: "preorder (Suc n) h' r = preorder (Suc n) h r"
    by (simp only: preorder.simps ch m2)
  show ?case using t s p by blast
qed

lemma preorder_allocated:
  "tree_within n h r \<Longrightarrow> x \<in> set (preorder n h r) \<Longrightarrow> x < length h"
proof (induction n arbitrary: r)
  case 0
  then show ?case by simp
next
  case (Suc n)
  then show ?case by (auto simp: list_all_iff)
qed

section \<open>The loop of the factories\<close>

lemma attach_length [simp]: "length (attach e h c) = length h"
  by (simp add: attach_def push_child_def set_parent_def)

lemma foldl_attach_length [simp]: "length (foldl (attach e) h cs) = length h"
  by (induction cs arbitrary: h) simp_all

lemma attach_other:
  "r \<noteq> e \<Longrightarrow> r \<noteq> c \<Longrightarrow> attach e h c ! r = h ! r"
  by (simp add: attach_def push_child_def set_parent_def)

lemma attach_child:
  "c \<noteq> e \<Longrightarrow> c < length h \<Longrightarrow> attach e h c ! c = (h ! c)\<lparr>parent := Some e\<rparr>"
  by (simp add: attach_def push_child_def set_parent_def)

lemma attach_container:
  "c \<noteq> e \<Longrightarrow> e < length h \<Longrightarrow> attach e h c ! e = set_children (h ! e) (children (h ! e) @ [c])"
  by (simp add: attach_def push_child_def set_parent_def)

lemma foldl_attach:
  assumes "e < length h" and "e \<notin> set cs" and "\<forall>c\<in>set cs. c < length h"
    and "isDocumentNode (h ! e) \<or> isElementNode (h ! e)"
  shows "foldl (attach e) h cs ! e = set_children (h ! e) (children (h ! e) @ cs)
     \<and> (\<forall>r<length h. r \<noteq> e \<longrightarrow>
           foldl (attach e) h cs ! r = (if r \<in> set cs then (h ! r)\<lparr>parent := Some e\<rparr> else h ! r))"
  using assms
proof (induction cs arbitrary: h)
  case Nil
  have "set_children (h ! e) (children (h ! e)) = h ! e"
    using Nil.prems(4)
    by (auto simp: set_children_def children_def isDocumentNode_def isElementNode_def split: body.splits)
  then show ?case by simp
next
  case (Cons c cs)
  let ?h1 = "attach e h c"
  have ce: "c \<noteq> e" and c: "c < length h" using Cons.prems by auto
  have e1: "?h1 ! e = set_children (h ! e) (children (h ! e) @ [c])"
    using ce Cons.prems(1) by (rule attach_container)
  have cont1: "isDocumentNode (?h1 ! e) \<or> isElementNode (?h1 ! e)"
    using Cons.prems(4) by (simp add: e1)
  have ih: "foldl (attach e) ?h1 cs ! e = set_children (?h1 ! e) (children (?h1 ! e) @ cs)
     \<and> (\<forall>r<length ?h1. r \<noteq> e \<longrightarrow>
           foldl (attach e) ?h1 cs ! r = (if r \<in> set cs then (?h1 ! r)\<lparr>parent := Some e\<rparr> else ?h1 ! r))"
    using Cons.prems cont1 by (intro Cons.IH) auto
  have ch1: "children (?h1 ! e) = children (h ! e) @ [c]"
    using Cons.prems(4) by (simp add: e1)
  have sc: "set_children (set_children (h ! e) xs) ys = set_children (h ! e) ys" for xs ys
    by (simp add: set_children_def split: body.splits)
  have top: "foldl (attach e) h (c # cs) ! e = set_children (h ! e) (children (h ! e) @ c # cs)"
    using ih ch1 by (simp add: e1 sc)
  have rest: "foldl (attach e) h (c # cs) ! r
      = (if r \<in> set (c # cs) then (h ! r)\<lparr>parent := Some e\<rparr> else h ! r)"
    if r: "r < length h" "r \<noteq> e" for r
  proof (cases "r = c")
    case True
    have "?h1 ! c = (h ! c)\<lparr>parent := Some e\<rparr>" using ce c by (rule attach_child)
    then show ?thesis using ih r True by simp
  next
    case False
    have "?h1 ! r = h ! r" using r(2) False by (rule attach_other)
    then show ?thesis using ih r False by simp
  qed
  show ?case using top rest by blast
qed

section \<open>The factories and the copy of a subtree\<close>

lemma factory_loop:
  assumes cs: "\<forall>c\<in>set cs. c < length h"
    and cont: "isDocumentNode nd \<or> isElementNode nd"
  shows "length (foldl (attach (length h)) (h @ [nd]) cs) = Suc (length h)
     \<and> foldl (attach (length h)) (h @ [nd]) cs ! length h = set_children nd (children nd @ cs)
     \<and> (\<forall>r<length h. foldl (attach (length h)) (h @ [nd]) cs ! r
           = (if r \<in> set cs then (h ! r)\<lparr>parent := Some (length h)\<rparr> else h ! r))"
proof -
  let ?h0 = "h @ [nd]"
  have e: "length h < length ?h0" by simp
  have notin: "length h \<notin> set cs" using cs by auto
  have alloc: "\<forall>c\<in>set cs. c < length ?h0" using cs by auto
  have cont0: "isDocumentNode (?h0 ! length h) \<or> isElementNode (?h0 ! length h)"
    using cont by simp
  note loop = foldl_attach [OF e notin alloc cont0]
  have top: "foldl (attach (length h)) ?h0 cs ! length h = set_children nd (children nd @ cs)"
    using loop by simp
  have rest: "foldl (attach (length h)) ?h0 cs ! r
           = (if r \<in> set cs then (h ! r)\<lparr>parent := Some (length h)\<rparr> else h ! r)"
    if "r < length h" for r
  proof -
    have "r < length ?h0" and "r \<noteq> length h" using that by simp_all
    then have "foldl (attach (length h)) ?h0 cs ! r
           = (if r \<in> set cs then (?h0 ! r)\<lparr>parent := Some (length h)\<rparr> else ?h0 ! r)"
      using loop by blast
    then show ?thesis using that by (simp add: nth_append)
  qed
  show ?thesis using top rest by simp
qed

lemma container_result:
  assumes cs: "\<forall>c\<in>set cs. c < length h"
    and cont: "isDocumentNode nd \<or> isElementNode nd"
    and fresh: "children nd = []" "parent nd = None"
    and h': "h' = foldl (attach (length h)) (h @ [nd]) cs"
    and low: "\<forall>c\<in>set cs. L \<le> c" "L \<le> length h"
  shows "length h' = Suc (length h)"
    and "structure_kept h h'"
    and "\<forall>r<L. h' ! r = h ! r"
    and "children (h' ! length h) = cs"
    and "body (h' ! length h) = body (set_children nd cs)"
    and "node_start (h' ! length h) = node_start nd"
    and "node_end (h' ! length h) = node_end nd"
    and "parent (h' ! length h) = None"
    and "\<forall>c\<in>set cs. parent (h' ! c) = Some (length h)"
proof -
  note loop = factory_loop [OF cs cont, folded h']
  show len: "length h' = Suc (length h)" using loop by simp
  have top: "h' ! length h = set_children nd cs" using loop fresh by simp
  have rest: "\<And>r. r < length h \<Longrightarrow>
      h' ! r = (if r \<in> set cs then (h ! r)\<lparr>parent := Some (length h)\<rparr> else h ! r)"
    using loop by blast
  show "structure_kept h h'"
    using len rest by (simp add: structure_kept_iff)
  show "\<forall>r<L. h' ! r = h ! r"
  proof (intro allI impI)
    fix r assume "r < L"
    then have "r < length h" and "r \<notin> set cs" using low by auto
    then show "h' ! r = h ! r" using rest by simp
  qed
  show "children (h' ! length h) = cs" using top cont by simp
  show "body (h' ! length h) = body (set_children nd cs)" using top by simp
  show "node_start (h' ! length h) = node_start nd" using top by simp
  show "node_end (h' ! length h) = node_end nd" using top by simp
  show "parent (h' ! length h) = None" using top fresh by simp
  show "\<forall>c\<in>set cs. parent (h' ! c) = Some (length h)"
    using rest cs by simp
qed

lemma clone_ok_copy_in: "clone_ok n h x h' x' \<Longrightarrow> copy_in n h h' x x'"
  by (simp add: clone_ok_def copy_in_def)

lemma copy_in_later:
  assumes "copy_in n h h1 c c'" and "structure_kept h1 h2"
  shows "copy_in n h h2 c c'"
proof -
  have t: "tree_within n h1 c'" using assms(1) by (simp add: copy_in_def)
  note kept = structure_kept_tree [OF assms(2) t]
  have "length h1 \<le> length h2" using assms(2) by (simp add: structure_kept_iff)
  then show ?thesis using assms(1) kept by (simp add: copy_in_def)
qed

lemma copy_in_earlier:
  assumes "copy_in n h1 h2 c c'" and "structure_kept h h1" and "tree_within n h c"
  shows "copy_in n h h2 c c'"
proof -
  note kept = structure_kept_tree [OF assms(2) assms(3)]
  have "length h \<le> length h1" using assms(2) by (simp add: structure_kept_iff)
  then show ?thesis using assms(1) kept by (auto simp: copy_in_def)
qed

lemma array_map_clone:
  assumes IH: "\<And>x h. tree_within n h x \<Longrightarrow> \<exists>x' h'. cloneNode n x h = Some (Inr x', h') \<and> clone_ok n h x h' x'"
    and trees: "list_all (tree_within n h) cs"
  shows "\<exists>cs' h'. array_map cs (cloneNode n) h = Some (Inr cs', h') \<and> unchanged_below h h'
           \<and> list_all2 (copy_in n h h') cs cs'"
  using trees
proof (induction cs arbitrary: h)
  case Nil
  then show ?case by (simp add: return_value_def)
next
  case (Cons c cs)
  have tc: "tree_within n h c" and tcs: "list_all (tree_within n h) cs"
    using Cons.prems by simp_all
  obtain c' h1 where run1: "cloneNode n c h = Some (Inr c', h1)" and ok1: "clone_ok n h c h1 c'"
    using IH [OF tc] by blast
  have u1: "unchanged_below h h1" using ok1 by (simp add: clone_ok_def)
  have k1: "structure_kept h h1" using u1 by (rule unchanged_below_structure)
  have tcs1: "list_all (tree_within n h1) cs"
    using tcs structure_kept_tree [OF k1] by (simp add: list_all_iff)
  obtain cs' h2 where run2: "array_map cs (cloneNode n) h1 = Some (Inr cs', h2)"
    and u2: "unchanged_below h1 h2" and all2: "list_all2 (copy_in n h1 h2) cs cs'"
    using Cons.IH [OF tcs1] by blast
  have k2: "structure_kept h1 h2" using u2 by (rule unchanged_below_structure)
  have run: "array_map (c # cs) (cloneNode n) h = Some (Inr (c' # cs'), h2)"
    using run1 run2 by (simp add: and_then_def return_value_def)
  have first: "copy_in n h h2 c c'"
    using clone_ok_copy_in [OF ok1] k2 by (rule copy_in_later)
  have rest: "list_all2 (copy_in n h h2) cs cs'"
  proof (rule list.rel_mono_strong [OF all2])
    fix d d' assume "d \<in> set cs" and "d' \<in> set cs'" and "copy_in n h1 h2 d d'"
    moreover have "tree_within n h d" using tcs \<open>d \<in> set cs\<close> by (simp add: list_all_iff)
    ultimately show "copy_in n h h2 d d'" using k1 by (auto intro: copy_in_earlier)
  qed
  show ?case using run unchanged_below_trans [OF u1 u2] first rest by simp
qed

lemma list_all2_right: "list_all2 P xs ys \<Longrightarrow> y \<in> set ys \<Longrightarrow> \<exists>x\<in>set xs. P x y"
  by (induction rule: list_all2_induct) auto

lemma list_all2_map_eq: "list_all2 (\<lambda>x y. g y = f x) xs ys \<Longrightarrow> map g ys = map f xs"
  by (induction rule: list_all2_induct) auto

lemma clone_container:
  assumes all2: "list_all2 (copy_in n h h2) cs cs'" and u: "unchanged_below h h2"
    and nd: "isDocumentNode nd \<or> isElementNode nd" "children nd = []" "parent nd = None"
    and h3: "h3 = foldl (attach (length h2)) (h2 @ [nd]) cs'"
  shows "unchanged_below h h3"
    and "length h \<le> length h2"
    and "length h2 < length h3"
    and "tree_within (Suc n) h3 (length h2)"
    and "map (shape_of n h3) cs' = map (shape_of n h) cs"
    and "\<forall>r\<in>set (preorder (Suc n) h3 (length h2)). length h \<le> r"
    and "parent (h3 ! length h2) = None"
    and "\<forall>c\<in>set (children (h3 ! length h2)). parent (h3 ! c) = Some (length h2)"
    and "body (h3 ! length h2) = body (set_children nd cs')"
    and "node_start (h3 ! length h2) = node_start nd"
    and "node_end (h3 ! length h2) = node_end nd"
proof -
  have each: "copy_in n h h2 c c'" if "c' \<in> set cs'" "c \<in> set cs" "copy_in n h h2 c c'" for c c'
    using that by simp
  have bounds: "\<forall>c'\<in>set cs'. length h \<le> c' \<and> c' < length h2"
    using list_all2_right [OF all2] by (auto simp: copy_in_def)
  have alloc: "\<forall>c'\<in>set cs'. c' < length h2" and low: "\<forall>c'\<in>set cs'. length h \<le> c'"
    using bounds by simp_all
  show len: "length h \<le> length h2" using u by (simp add: unchanged_below_iff)
  note res = container_result [OF alloc nd h3 low len]
  show "length h2 < length h3" using res(1) by simp
  show "unchanged_below h h3"
    using u res(1) res(3) by (simp add: unchanged_below_iff)
  have k: "structure_kept h2 h3" using res(2) .
  have all3: "list_all2 (copy_in n h h3) cs cs'"
    using all2 by (rule list.rel_mono_strong) (rule copy_in_later [OF _ k])
  have kids: "children (h3 ! length h2) = cs'" using res(4) .
  have trees: "\<forall>c'\<in>set cs'. tree_within n h3 c'"
    using list_all2_right [OF all3] by (auto simp: copy_in_def)
  show "tree_within (Suc n) h3 (length h2)"
    using res(1) kids trees by (simp add: list_all_iff)
  have "list_all2 (\<lambda>c c'. shape_of n h3 c' = shape_of n h c) cs cs'"
    using all3 by (rule list.rel_mono_strong) (simp add: copy_in_def)
  then show "map (shape_of n h3) cs' = map (shape_of n h) cs"
    by (rule list_all2_map_eq)
  have "\<forall>c'\<in>set cs'. \<forall>r\<in>set (preorder n h3 c'). length h \<le> r"
    using list_all2_right [OF all3] by (auto simp: copy_in_def)
  then show "\<forall>r\<in>set (preorder (Suc n) h3 (length h2)). length h \<le> r"
    using len kids by auto
  show "parent (h3 ! length h2) = None" using res(8) .
  show "\<forall>c\<in>set (children (h3 ! length h2)). parent (h3 ! c) = Some (length h2)"
    using res(9) kids by simp
  show "body (h3 ! length h2) = body (set_children nd cs')" using res(5) .
  show "node_start (h3 ! length h2) = node_start nd" using res(6) .
  show "node_end (h3 ! length h2) = node_end nd" using res(7) .
qed

lemma cloneNode_clone_ok:
  "tree_within n h x \<Longrightarrow> \<exists>x' h'. cloneNode n x h = Some (Inr x', h') \<and> clone_ok n h x h' x'"
proof (induction n arbitrary: x h)
  case 0
  then show ?case by simp
next
  case (Suc n)
  have x: "x < length h" and kids: "list_all (tree_within n h) (children (h ! x))"
    using Suc.prems by simp_all
  show ?case
  proof (cases "body (h ! x)")
    case (Text s)
    let ?nd = "\<lparr>body = Text s, node_start = node_start (h ! x), node_end = node_end (h ! x), parent = None\<rparr>"
    have run: "cloneNode (Suc n) x h = Some (Inr (length h), h @ [?nd])"
      using Text by (simp add: isTextNode_def content_def allocate_def createText_def)
    have "clone_ok (Suc n) h x (h @ [?nd]) (length h)"
      using Text by (simp add: clone_ok_def unchanged_below_iff nth_append children_def)
    then show ?thesis using run by blast
  next
    case (Element tag cs)
    have ch: "children (h ! x) = cs" using Element by (simp add: children_def)
    obtain cs' h2 where run2: "array_map cs (cloneNode n) h = Some (Inr cs', h2)"
      and u2: "unchanged_below h h2" and all2: "list_all2 (copy_in n h h2) cs cs'"
      using array_map_clone [OF Suc.IH, of h cs] kids ch by auto
    have same: "h2 ! x = h ! x" using u2 x by (simp add: unchanged_below_iff)
    let ?nd = "\<lparr>body = Element tag [], node_start = node_start (h ! x), node_end = node_end (h ! x), parent = None\<rparr>"
    let ?h3 = "foldl (attach (length h2)) (h2 @ [?nd]) cs'"
    have run: "cloneNode (Suc n) x h = Some (Inr (length h2), ?h3)"
      using Element run2 same
      by (simp add: isTextNode_def isElementNode_def ch and_then_def allocate_def createElement_def
          tagName_def Let_def)
    have nd: "isDocumentNode ?nd \<or> isElementNode ?nd" "children ?nd = []" "parent ?nd = None"
      by (simp_all add: isElementNode_def children_def)
    note c = clone_container [OF all2 u2 nd refl]
    have shape: "shape_of (Suc n) ?h3 (length h2) = shape_of (Suc n) h x"
      using c(5) c(9) c(10) c(11) Element by (simp add: set_children_def)
    have "clone_ok (Suc n) h x ?h3 (length h2)"
      unfolding clone_ok_def using c(1) c(2) c(3) c(4) shape c(6) c(7) c(8) by blast
    then show ?thesis using run by blast
  next
    case (Document cs)
    have ch: "children (h ! x) = cs" using Document by (simp add: children_def)
    obtain cs' h2 where run2: "array_map cs (cloneNode n) h = Some (Inr cs', h2)"
      and u2: "unchanged_below h h2" and all2: "list_all2 (copy_in n h h2) cs cs'"
      using array_map_clone [OF Suc.IH, of h cs] kids ch by auto
    have same: "h2 ! x = h ! x" using u2 x by (simp add: unchanged_below_iff)
    let ?nd = "\<lparr>body = Document [], node_start = node_start (h ! x), node_end = node_end (h ! x), parent = None\<rparr>"
    let ?h3 = "foldl (attach (length h2)) (h2 @ [?nd]) cs'"
    have run: "cloneNode (Suc n) x h = Some (Inr (length h2), ?h3)"
      using Document run2 same
      by (simp add: isTextNode_def isElementNode_def isDocumentNode_def ch and_then_def
          allocate_def createDocument_def Let_def)
    have nd: "isDocumentNode ?nd \<or> isElementNode ?nd" "children ?nd = []" "parent ?nd = None"
      by (simp_all add: isDocumentNode_def children_def)
    note c = clone_container [OF all2 u2 nd refl]
    have shape: "shape_of (Suc n) ?h3 (length h2) = shape_of (Suc n) h x"
      using c(5) c(9) c(10) c(11) Document by (simp add: set_children_def)
    have "clone_ok (Suc n) h x ?h3 (length h2)"
      unfolding clone_ok_def using c(1) c(2) c(3) c(4) shape c(6) c(7) c(8) by blast
    then show ?thesis using run by blast
  qed
qed

lemma tree_within_self: "tree_within n h r \<Longrightarrow> r \<in> set (preorder n h r)"
  by (cases n) simp_all

lemma attach_children_other:
  "y \<noteq> e \<Longrightarrow> children (attach e h c ! y) = children (h ! y)"
  by (cases "c < length h"; cases "y = c")
    (simp_all add: attach_def push_child_def set_parent_def list_update_beyond)

lemma removeChild_children_other:
  assumes "parent (h ! c) = Some p" and "y \<noteq> p"
  shows "children (removeChild c h ! y) = children (h ! y)"
proof (cases "(isDocumentNode (h ! p) \<or> isElementNode (h ! p)) \<and> indexOf (children (h ! p)) c \<noteq> - 1")
  case False
  then show ?thesis using assms by (auto simp: removeChild_def Let_def)
next
  case True
  let ?h1 = "h[p := set_children (h ! p) (splice1 (nat (indexOf (children (h ! p)) c)) (children (h ! p)))]"
  have eq: "removeChild c h = ?h1[c := (?h1 ! c)\<lparr>parent := None\<rparr>]"
    using True assms(1) by (simp add: removeChild_def Let_def)
  have other: "?h1 ! y = h ! y" using assms(2) by simp
  show ?thesis
  proof (cases "y = c \<and> c < length h")
    case True
    then show ?thesis using other by (simp add: eq)
  next
    case False
    then have "(?h1[c := (?h1 ! c)\<lparr>parent := None\<rparr>]) ! y = ?h1 ! y"
      by (cases "y = c") (simp_all add: list_update_beyond)
    then show ?thesis using other by (simp add: eq)
  qed
qed

section \<open>Cloning\<close>

text \<open>
  Claim C6.  On every tree, \<open>cloneNode\<close> returns a reference \<open>x'\<close> that the store did not
  have before, so it differs from \<open>x\<close> and from every node of the subtree of \<open>x\<close>, and the
  same holds for every node of the subtree of \<open>x'\<close>.  Every object the store had before
  is unchanged.  The subtree of \<open>x'\<close> has the structure of the subtree of \<open>x\<close>: kind, tag,
  content and span at every node, children in order.  The clone has no parent and each of
  its children has the clone as parent.  Appending a child to the clone, or removing one
  of its children, leaves the children of \<open>x\<close> and of every other earlier object as they
  were.
\<close>

theorem cloneNode_independent_copy:
  assumes tree: "tree_within n h x"
  shows "\<exists>x' h'. cloneNode n x h = Some (Inr x', h')
     \<and> x' \<noteq> x \<and> x' \<notin> set (preorder n h x)
     \<and> set (preorder n h' x') \<inter> set (preorder n h x) = {}
     \<and> length h \<le> x' \<and> x' < length h' \<and> take (length h) h' = h
     \<and> tree_within n h' x' \<and> shape_of n h' x' = shape_of n h x
     \<and> parent (h' ! x') = None
     \<and> (\<forall>c\<in>set (children (h' ! x')). parent (h' ! c) = Some x')
     \<and> (\<forall>c. \<forall>y<length h. children (appendChild x' c h' ! y) = children (h ! y))
     \<and> (\<forall>c\<in>set (children (h' ! x')). \<forall>y<length h.
           children (removeChild c h' ! y) = children (h ! y))"
proof -
  obtain x' h' where run: "cloneNode n x h = Some (Inr x', h')" and ok: "clone_ok n h x h' x'"
    using cloneNode_clone_ok [OF tree] by blast
  have u: "unchanged_below h h'" and low: "length h \<le> x'" and up: "x' < length h'"
    and t': "tree_within n h' x'" and sh: "shape_of n h' x' = shape_of n h x"
    and fresh: "\<forall>r\<in>set (preorder n h' x'). length h \<le> r"
    and par: "parent (h' ! x') = None"
    and kids: "\<forall>c\<in>set (children (h' ! x')). parent (h' ! c) = Some x'"
    using ok by (simp_all add: clone_ok_def)
  have old: "\<forall>r\<in>set (preorder n h x). r < length h"
    using preorder_allocated [OF tree] by blast
  have x: "x < length h" using old tree_within_self [OF tree] by blast
  have ne: "x' \<noteq> x" using x low by simp
  have notin: "x' \<notin> set (preorder n h x)" using old low by auto
  have disjoint: "set (preorder n h' x') \<inter> set (preorder n h x) = {}"
    using old fresh by fastforce
  have same: "take (length h) h' = h"
    using u by (auto simp: unchanged_below_iff intro: nth_equalityI)
  have cell: "\<And>y. y < length h \<Longrightarrow> h' ! y = h ! y"
    using u by (simp add: unchanged_below_iff)
  have app: "\<forall>c. \<forall>y<length h. children (appendChild x' c h' ! y) = children (h ! y)"
    using low cell by (simp add: appendChild_def attach_children_other)
  have rem: "\<forall>c\<in>set (children (h' ! x')). \<forall>y<length h.
           children (removeChild c h' ! y) = children (h ! y)"
  proof (intro ballI allI impI)
    fix c y assume "c \<in> set (children (h' ! x'))" and y: "y < length h"
    then have "parent (h' ! c) = Some x'" using kids by simp
    moreover have "y \<noteq> x'" using y low by simp
    ultimately have "children (removeChild c h' ! y) = children (h' ! y)"
      by (rule removeChild_children_other)
    then show "children (removeChild c h' ! y) = children (h ! y)" using cell [OF y] by simp
  qed
  show ?thesis
    using run ne notin disjoint low up same t' sh par kids app rem by blast
qed

theorem cloneNode_independent_copy_witness:
  "tree_within (Suc (Suc (Suc 0))) example_heap 4
   \<and> (\<exists>x' h'. cloneNode (Suc (Suc (Suc 0))) 4 example_heap = Some (Inr x', h')
        \<and> x' \<noteq> 4 \<and> 6 \<le> x' \<and> x' < length h' \<and> take 6 h' = example_heap
        \<and> shape_of (Suc (Suc (Suc 0))) h' x'
            = ElementShape ''red'' 0 0
                [TextShape ''Hello '' 0 6, ElementShape ''bold'' 0 0 [TextShape ''World'' 0 5],
                 TextShape ''!'' 0 1]
        \<and> parent (h' ! x') = None)"
proof -
  have tree: "tree_within (Suc (Suc (Suc 0))) example_heap 4"
    by (simp add: example_simps)
  have shape: "shape_of (Suc (Suc (Suc 0))) example_heap 4
      = ElementShape ''red'' 0 0
          [TextShape ''Hello '' 0 6, ElementShape ''bold'' 0 0 [TextShape ''World'' 0 5],
           TextShape ''!'' 0 1]"
    by (simp add: example_cells)
  obtain x' h' where "cloneNode (Suc (Suc (Suc 0))) 4 example_heap = Some (Inr x', h')"
    and "x' \<noteq> 4" and "length example_heap \<le> x'" and "x' < length h'"
    and "take (length example_heap) h' = example_heap"
    and "shape_of (Suc (Suc (Suc 0))) h' x' = shape_of (Suc (Suc (Suc 0))) example_heap 4"
    and "parent (h' ! x') = None"
    using cloneNode_independent_copy [OF tree] by blast
  then show ?thesis using tree shape by (auto simp: example_cells)
qed

end
